theory Spec2Isabelle
  imports Main "HOL-Library.AList"
begin

section \<open>The value model\<close>

text \<open>
  The writer of \<^verbatim>\<open>pyhanko/pdf_utils/writer.py\<close> works on the tagged values of the
  module \<^verbatim>\<open>generic\<close>. A reference names an object by its id number, its generation
  and the handler (reader or writer) that owns it; handlers are told apart by a number.
  A dictionary is an association list in insertion order, as a Python \<^verbatim>\<open>dict\<close> is;
  a stream object is a dictionary with a payload and counts as a dictionary wherever
  the source tests \<^verbatim>\<open>isinstance(obj, DictionaryObject)\<close>. Bytes are characters.
  Ids are Python integers, hence \<^typ>\<open>int\<close>.
\<close>

datatype reference = Reference (idnum: int) (generation: int) (pdf: nat)

datatype pdf_obj =
    NullObject
  | NumberObject int
  | NameObject string
  | OtherObject string
  | IndirectObject reference
  | ArrayObject "pdf_obj list"
  | DictionaryObject "(string \<times> pdf_obj) list"
  | StreamObject "(string \<times> pdf_obj) list" string
  | DecryptedObjectProxy pdf_obj

datatype error =
    ValueError | KeyError | TypeError | PdfWriteError | PdfReadError
  | RuntimeError | StructError | AssertionError | AttributeError

text \<open>\<^verbatim>\<open>OBJSTREAM_FORBIDDEN = (generic.IndirectObject, generic.StreamObject)\<close>\<close>

fun objstream_forbidden :: "pdf_obj \<Rightarrow> bool" where
  "objstream_forbidden (IndirectObject r) = True"
| "objstream_forbidden (StreamObject d s) = True"
| "objstream_forbidden obj = False"

section \<open>Object streams\<close>

record ObjectStream =
  obj_refs :: "(int \<times> pdf_obj) list"
  compress :: bool

definition ObjectStream_init :: "bool \<Rightarrow> ObjectStream" where
  "ObjectStream_init c = \<lparr>obj_refs = [], compress = c\<rparr>"

definition ObjectStream_add_object ::
  "ObjectStream \<Rightarrow> int \<Rightarrow> pdf_obj \<Rightarrow> error + ObjectStream" where
  "ObjectStream_add_object os i obj =
     (if objstream_forbidden obj then Inl TypeError
      else Inr (os\<lparr>obj_refs := AList.update i obj (obj_refs os)\<rparr>))"

section \<open>The object store of the writer\<close>

text \<open>
  The fields of \<^verbatim>\<open>BasePdfFileWriter\<close> that the object store uses. The writer's
  own identity is \<open>self_id\<close>: \<^verbatim>\<open>_resolves_objs_from\<close> is \<^verbatim>\<open>(self,)\<close>. The object
  streams the writer has prepared are kept with the handle that identifies each; a
  stream the writer does not know is a handle absent from that list.
\<close>

record writer =
  self_id :: nat
  objects :: "((int \<times> int) \<times> pdf_obj) list"
  object_streams :: "(nat \<times> ObjectStream) list"
  objs_in_streams :: "(int \<times> pdf_obj) list"
  lastobj_id :: int
  allocated_placeholders :: "int set"
  stream_xrefs :: bool
  root_ref :: reference
  info_ref :: "reference option"
  encrypt_ref :: "reference option"
  document_id :: pdf_obj

definition get_object :: "writer \<Rightarrow> reference \<Rightarrow> error + pdf_obj" where
  "get_object w ido =
     (if pdf ido \<noteq> self_id w then Inl ValueError
      else case map_of (objects w) (generation ido, idnum ido) of
        Some v \<Rightarrow> Inr v
      | None \<Rightarrow>
          if generation ido = 0 then
            if idnum ido \<in> allocated_placeholders w then Inr NullObject
            else (case map_of (objs_in_streams w) (idnum ido) of
                    Some v \<Rightarrow> Inr v
                  | None \<Rightarrow> Inl KeyError)
          else Inl KeyError)"

definition allocate_placeholder :: "writer \<Rightarrow> reference \<times> writer" where
  "allocate_placeholder w =
     (let i = lastobj_id w + 1
      in (Reference i 0 (self_id w),
          w\<lparr>allocated_placeholders := insert i (allocated_placeholders w),
            lastobj_id := lastobj_id w + 1\<rparr>))"

definition add_object ::
  "writer \<Rightarrow> pdf_obj \<Rightarrow> nat option \<Rightarrow> int option \<Rightarrow> error + (reference \<times> writer)" where
  "add_object w obj obj_stream idnum_opt =
     (if (case idnum_opt of Some i \<Rightarrow> i \<notin> allocated_placeholders w | None \<Rightarrow> False)
      then Inl PdfWriteError
      else
        let preallocated = (idnum_opt \<noteq> None);
            i = (case idnum_opt of Some i \<Rightarrow> i | None \<Rightarrow> lastobj_id w + 1);
            stored =
              (case obj_stream of
                 None \<Rightarrow> Inr (w\<lparr>objects := AList.update (0, i) obj (objects w)\<rparr>)
               | Some h \<Rightarrow>
                   (case map_of (object_streams w) h of
                      Some os \<Rightarrow>
                        (case ObjectStream_add_object os i obj of
                           Inl e \<Rightarrow> Inl e
                         | Inr os' \<Rightarrow>
                             Inr (w\<lparr>object_streams := AList.update h os' (object_streams w),
                                    objs_in_streams := AList.update i obj (objs_in_streams w)\<rparr>))
                    | None \<Rightarrow> Inl PdfWriteError))
        in case stored of
             Inl e \<Rightarrow> Inl e
           | Inr w1 \<Rightarrow>
               Inr (Reference i 0 (self_id w),
                    if preallocated
                    then w1\<lparr>allocated_placeholders := allocated_placeholders w1 - {i}\<rparr>
                    else w1\<lparr>lastobj_id := lastobj_id w1 + 1\<rparr>))"

definition prepare_object_stream :: "writer \<Rightarrow> bool \<Rightarrow> error + (nat \<times> writer)" where
  "prepare_object_stream w c =
     (if \<not> stream_xrefs w then Inl PdfWriteError
      else let h = length (object_streams w)
           in Inr (h, w\<lparr>object_streams := object_streams w @ [(h, ObjectStream_init c)]\<rparr>))"

text \<open>
  The constructor: the root (and the info dictionary, when given) is registered unless it
  is already a reference. A field assigned later in \<^verbatim>\<open>__init__\<close> holds a default
  until then.
\<close>

definition BasePdfFileWriter_init ::
  "nat \<Rightarrow> pdf_obj \<Rightarrow> pdf_obj option \<Rightarrow> pdf_obj \<Rightarrow> int \<Rightarrow> bool \<Rightarrow> writer" where
  "BasePdfFileWriter_init me root info doc_id obj_id_start sx =
     (let w0 = \<lparr>self_id = me, objects = [], object_streams = [], objs_in_streams = [],
                 lastobj_id = obj_id_start, allocated_placeholders = {},
                 stream_xrefs = sx, root_ref = Reference 0 0 me, info_ref = None,
                 encrypt_ref = None, document_id = doc_id\<rparr>;
          (rr, w1) = (case root of
                        IndirectObject r \<Rightarrow> (r, w0)
                      | _ \<Rightarrow> (case add_object w0 root None None of
                                Inr p \<Rightarrow> p | Inl e \<Rightarrow> (Reference 0 0 me, w0)));
          w2 = w1\<lparr>root_ref := rr\<rparr>
      in case info of
           None \<Rightarrow> w2
         | Some (IndirectObject r) \<Rightarrow> w2\<lparr>info_ref := Some r\<rparr>
         | Some i \<Rightarrow> (case add_object w2 i None None of
                         Inr (r, w3) \<Rightarrow> w3\<lparr>info_ref := Some r\<rparr>
                       | Inl e \<Rightarrow> w2))"

subsection \<open>Sequences of store operations\<close>

text \<open>
  A caller's sequence of calls on one writer. A call that raises leaves the writer as it
  was (each operation raises before it changes anything), and the caller goes on.
\<close>

datatype store_op =
    AllocatePlaceholder
  | AddObject pdf_obj "nat option" "int option"
  | PrepareObjectStream bool

fun apply_op :: "writer \<Rightarrow> store_op \<Rightarrow> reference option \<times> writer" where
  "apply_op w AllocatePlaceholder = (case allocate_placeholder w of (r, w') \<Rightarrow> (Some r, w'))"
| "apply_op w (AddObject obj s i) =
     (case add_object w obj s i of Inl e \<Rightarrow> (None, w) | Inr (r, w') \<Rightarrow> (Some r, w'))"
| "apply_op w (PrepareObjectStream c) =
     (case prepare_object_stream w c of Inl e \<Rightarrow> (None, w) | Inr (h, w') \<Rightarrow> (None, w'))"

fun run_ops :: "writer \<Rightarrow> store_op list \<Rightarrow> writer" where
  "run_ops w [] = w"
| "run_ops w (x # xs) = run_ops (snd (apply_op w x)) xs"

definition store_inv :: "writer \<Rightarrow> bool" where
  "store_inv w \<longleftrightarrow>
     (\<forall>g i v. map_of (objects w) (g, i) = Some v \<longrightarrow>
        g = 0 \<and> i \<le> lastobj_id w \<and> i \<notin> allocated_placeholders w
        \<and> map_of (objs_in_streams w) i = None)
   \<and> (\<forall>i \<in> allocated_placeholders w. i \<le> lastobj_id w \<and> map_of (objs_in_streams w) i = None)
   \<and> (\<forall>i v. map_of (objs_in_streams w) i = Some v \<longrightarrow> i \<le> lastobj_id w)"

fun populates :: "reference \<Rightarrow> store_op \<Rightarrow> bool" where
  "populates r (AddObject obj s (Some i)) = (i = idnum r)"
| "populates r op = False"

definition pending :: "reference \<Rightarrow> writer \<Rightarrow> bool" where
  "pending r w \<longleftrightarrow> store_inv w \<and> pdf r = self_id w \<and> generation r = 0
     \<and> idnum r \<in> allocated_placeholders w"

definition populated_with :: "reference \<Rightarrow> pdf_obj \<Rightarrow> writer \<Rightarrow> bool" where
  "populated_with r obj w \<longleftrightarrow> store_inv w \<and> pdf r = self_id w \<and> generation r = 0
     \<and> idnum r \<notin> allocated_placeholders w \<and> get_object w r = Inr obj"

subsection \<open>The store invariant and its consequences\<close>

lemma add_object_cases:
  assumes "add_object w obj s io = Inr (r, w')"
  obtains
    (fresh_direct) "s = None" "io = None" "r = Reference (lastobj_id w + 1) 0 (self_id w)"
      "w' = w\<lparr>objects := AList.update (0, lastobj_id w + 1) obj (objects w),
               lastobj_id := lastobj_id w + 1\<rparr>"
  | (fresh_stream) h os where "s = Some h" "io = None" "map_of (object_streams w) h = Some os"
      "\<not> objstream_forbidden obj" "r = Reference (lastobj_id w + 1) 0 (self_id w)"
      "w' = w\<lparr>object_streams := AList.update h
                 (os\<lparr>obj_refs := AList.update (lastobj_id w + 1) obj (obj_refs os)\<rparr>)
                 (object_streams w),
               objs_in_streams := AList.update (lastobj_id w + 1) obj (objs_in_streams w),
               lastobj_id := lastobj_id w + 1\<rparr>"
  | (pre_direct) i where "s = None" "io = Some i" "i \<in> allocated_placeholders w"
      "r = Reference i 0 (self_id w)"
      "w' = w\<lparr>objects := AList.update (0, i) obj (objects w),
               allocated_placeholders := allocated_placeholders w - {i}\<rparr>"
  | (pre_stream) h os i where "s = Some h" "io = Some i" "i \<in> allocated_placeholders w"
      "map_of (object_streams w) h = Some os"
      "\<not> objstream_forbidden obj" "r = Reference i 0 (self_id w)"
      "w' = w\<lparr>object_streams := AList.update h
                 (os\<lparr>obj_refs := AList.update i obj (obj_refs os)\<rparr>)
                 (object_streams w),
               objs_in_streams := AList.update i obj (objs_in_streams w),
               allocated_placeholders := allocated_placeholders w - {i}\<rparr>"
proof (cases s)
  case None
  show ?thesis
  proof (cases io)
    case N2: None
    from assms None N2 show ?thesis
      by (intro fresh_direct) (simp_all add: Let_def add_object_def)
  next
    case (Some i)
    from assms None Some show ?thesis
      by (intro pre_direct[of i]) (simp_all add: Let_def add_object_def split: if_splits)
  qed
next
  case (Some h)
  show ?thesis
  proof (cases io)
    case None
    from assms None Some show ?thesis
      by (cases "map_of (object_streams w) h"; cases "objstream_forbidden obj")
         (simp_all add: Let_def add_object_def ObjectStream_add_object_def fresh_stream)
  next
    case S2: (Some i)
    from assms S2 Some show ?thesis
      by (cases "map_of (object_streams w) h"; cases "objstream_forbidden obj";
          cases "i \<in> allocated_placeholders w")
         (simp_all add: Let_def add_object_def ObjectStream_add_object_def pre_stream)
  qed
qed


lemma store_inv_allocate:
  "store_inv w \<Longrightarrow> store_inv (snd (allocate_placeholder w))"
  unfolding store_inv_def allocate_placeholder_def Let_def
  by (simp; fastforce)

lemma store_inv_prepare:
  "store_inv w \<Longrightarrow> prepare_object_stream w c = Inr (h, w') \<Longrightarrow> store_inv w'"
  by (auto simp: prepare_object_stream_def store_inv_def Let_def split: if_splits; blast)

lemma store_inv_add:
  assumes "store_inv w" and "add_object w obj s io = Inr (r, w')"
  shows "store_inv w'"
  using assms(2)
proof (cases rule: add_object_cases)
  case fresh_direct
  with assms(1) show ?thesis
    unfolding store_inv_def by (simp add: update_conv'; fastforce)
next
  case (fresh_stream h os)
  with assms(1) show ?thesis
    unfolding store_inv_def by (simp add: update_conv'; fastforce)
next
  case (pre_direct i)
  with assms(1) show ?thesis
    unfolding store_inv_def by (simp add: update_conv'; fastforce)
next
  case (pre_stream h os i)
  with assms(1) show ?thesis
    unfolding store_inv_def by (simp add: update_conv'; fastforce)
qed


lemma pending_get_object: "pending r w \<Longrightarrow> get_object w r = Inr NullObject"
proof -
  assume p: "pending r w"
  then have "map_of (objects w) (0, idnum r) = None"
    unfolding pending_def store_inv_def by (cases "map_of (objects w) (0, idnum r)") auto
  with p show ?thesis by (simp add: get_object_def pending_def)
qed

lemma pending_allocate:
  "store_inv w \<Longrightarrow> allocate_placeholder w = (r, w1) \<Longrightarrow> pending r w1"
  using store_inv_allocate[of w]
  by (auto simp: pending_def allocate_placeholder_def Let_def)

lemma pending_allocate_step:
  "pending r w \<Longrightarrow> pending r (snd (allocate_placeholder w))"
  using store_inv_allocate[of w]
  by (auto simp: pending_def allocate_placeholder_def Let_def)

lemma pending_add_step:
  assumes "pending r w" "add_object w obj s io = Inr (r', w')" "io \<noteq> Some (idnum r)"
  shows "pending r w'"
proof -
  have inv: "store_inv w'" using assms store_inv_add by (auto simp: pending_def)
  from assms(2) have "self_id w' = self_id w
      \<and> (idnum r \<in> allocated_placeholders w \<longrightarrow> idnum r \<in> allocated_placeholders w')"
    using assms(3) by (cases rule: add_object_cases) auto
  with inv assms(1) show ?thesis by (simp add: pending_def)
qed

lemma pending_prepare_step:
  "pending r w \<Longrightarrow> prepare_object_stream w c = Inr (h, w') \<Longrightarrow> pending r w'"
  using store_inv_prepare[of w c h w']
  by (auto simp: pending_def prepare_object_stream_def Let_def split: if_splits)

lemma pending_step:
  assumes "pending r w" "\<not> populates r op"
  shows "pending r (snd (apply_op w op))"
proof (cases op)
  case AllocatePlaceholder
  with assms pending_allocate_step[of r w] show ?thesis
    by (cases "allocate_placeholder w") simp
next
  case (AddObject obj s io)
  show ?thesis
  proof (cases "add_object w obj s io")
    case (Inl e)
    with AddObject assms show ?thesis by simp
  next
    case (Inr p)
    obtain r' w' where p: "p = (r', w')" by (cases p)
    from assms(2) AddObject have "io \<noteq> Some (idnum r)" by (cases io) auto
    with pending_add_step[OF assms(1)] Inr p AddObject show ?thesis by simp
  qed
next
  case (PrepareObjectStream c)
  show ?thesis
  proof (cases "prepare_object_stream w c")
    case (Inl e)
    with PrepareObjectStream assms show ?thesis by simp
  next
    case (Inr p)
    obtain h w' where p: "p = (h, w')" by (cases p)
    with pending_prepare_step[OF assms(1)] Inr PrepareObjectStream show ?thesis by simp
  qed
qed

lemma pending_run:
  "pending r w \<Longrightarrow> \<forall>op \<in> set ops. \<not> populates r op \<Longrightarrow> pending r (run_ops w ops)"
  by (induction ops arbitrary: w) (simp_all add: pending_step)


lemma populated_get: "populated_with r obj w \<Longrightarrow> get_object w r = Inr obj"
  by (simp add: populated_with_def)

lemma populated_bound:
  assumes "populated_with r obj w" shows "idnum r \<le> lastobj_id w"
proof (cases "map_of (objects w) (0, idnum r)")
  case None
  with assms have "map_of (objs_in_streams w) (idnum r) = Some obj"
    by (auto simp: populated_with_def get_object_def split: option.splits if_splits)
  with assms show ?thesis by (auto simp: populated_with_def store_inv_def)
next
  case (Some v)
  with assms show ?thesis by (auto simp: populated_with_def store_inv_def)
qed

lemma populate_pending:
  assumes "pending r w" "add_object w obj s (Some (idnum r)) = Inr (r', w')"
  shows "r' = r \<and> populated_with r obj w'"
proof -
  have inv: "store_inv w'" using assms store_inv_add by (auto simp: pending_def)
  have none: "map_of (objects w) (0, idnum r) = None"
    using assms(1) unfolding pending_def store_inv_def
    by (cases "map_of (objects w) (0, idnum r)") auto
  have r: "Reference (idnum r) 0 (self_id w) = r"
    using assms(1) by (cases r) (simp add: pending_def)
  from assms(2) have "r' = r \<and> self_id w' = self_id w
      \<and> idnum r \<notin> allocated_placeholders w' \<and> get_object w' r = Inr obj"
    using r none assms(1)
    by (cases rule: add_object_cases)
       (auto simp: get_object_def update_conv' pending_def)
  with inv assms(1) show ?thesis by (simp add: populated_with_def pending_def)
qed

lemma populate_pending_ex:
  assumes "pending r w"
  shows "\<exists>w'. add_object w obj None (Some (idnum r)) = Inr (r, w')"
proof -
  have r: "Reference (idnum r) 0 (self_id w) = r"
    using assms by (cases r) (simp add: pending_def)
  with assms show ?thesis by (simp add: add_object_def Let_def pending_def)
qed


lemma get_object_cong:
  "self_id w' = self_id w \<Longrightarrow>
   map_of (objects w') (generation r, idnum r) = map_of (objects w) (generation r, idnum r) \<Longrightarrow>
   (idnum r \<in> allocated_placeholders w') = (idnum r \<in> allocated_placeholders w) \<Longrightarrow>
   map_of (objs_in_streams w') (idnum r) = map_of (objs_in_streams w) (idnum r) \<Longrightarrow>
   get_object w' r = get_object w r"
  by (cases "map_of (objects w) (generation r, idnum r)";
      cases "map_of (objs_in_streams w) (idnum r)"; simp add: get_object_def)

lemma populated_allocate_step:
  assumes "populated_with r obj w"
  shows "populated_with r obj (snd (allocate_placeholder w))"
proof -
  have b: "idnum r \<le> lastobj_id w" using assms by (rule populated_bound)
  have inv: "store_inv (snd (allocate_placeholder w))"
    using assms store_inv_allocate by (simp add: populated_with_def)
  have "get_object (snd (allocate_placeholder w)) r = get_object w r"
    using b by (intro get_object_cong) (simp_all add: allocate_placeholder_def Let_def)
  with assms b inv show ?thesis
    by (simp add: populated_with_def allocate_placeholder_def Let_def)
qed

lemma populated_add_step:
  assumes "populated_with r obj w" "add_object w obj' s io = Inr (r', w')"
  shows "populated_with r obj w'"
proof -
  have b: "idnum r \<le> lastobj_id w" using assms(1) by (rule populated_bound)
  have inv: "store_inv w'" using assms store_inv_add by (auto simp: populated_with_def)
  have np: "idnum r \<notin> allocated_placeholders w" and g: "get_object w r = Inr obj"
    and sid: "pdf r = self_id w" and gen: "generation r = 0"
    using assms(1) by (simp_all add: populated_with_def)
  from assms(2) have "self_id w' = self_id w
      \<and> idnum r \<notin> allocated_placeholders w' \<and> get_object w' r = get_object w r"
  proof (cases rule: add_object_cases)
    case fresh_direct
    have "get_object w' r = get_object w r"
      using b np gen fresh_direct by (intro get_object_cong) (simp_all add: update_conv')
    with fresh_direct np show ?thesis by simp
  next
    case (fresh_stream h os)
    have "get_object w' r = get_object w r"
      using b np gen fresh_stream by (intro get_object_cong) (simp_all add: update_conv')
    with fresh_stream np show ?thesis by simp
  next
    case (pre_direct i)
    then have ne: "i \<noteq> idnum r" using np by auto
    have "get_object w' r = get_object w r"
      using b np gen pre_direct ne by (intro get_object_cong) (simp_all add: update_conv')
    with pre_direct np show ?thesis by simp
  next
    case (pre_stream h os i)
    then have ne: "i \<noteq> idnum r" using np by auto
    have "get_object w' r = get_object w r"
      using b np gen pre_stream ne by (intro get_object_cong) (simp_all add: update_conv')
    with pre_stream np show ?thesis by simp
  qed
  with inv sid gen g show ?thesis by (simp add: populated_with_def)
qed

lemma populated_prepare_step:
  assumes "populated_with r obj w" "prepare_object_stream w c = Inr (h, w')"
  shows "populated_with r obj w'"
proof -
  have inv: "store_inv w'"
    using assms store_inv_prepare by (auto simp: populated_with_def)
  from assms(2) have w': "w' = w\<lparr>object_streams :=
      object_streams w @ [(length (object_streams w), ObjectStream_init c)]\<rparr>"
    by (auto simp add: prepare_object_stream_def Let_def split: if_splits)
  have "get_object w' r = get_object w r"
    by (intro get_object_cong) (simp_all add: w')
  with assms(1) inv w' show ?thesis by (simp add: populated_with_def)
qed

lemma populated_step:
  assumes "populated_with r obj w"
  shows "populated_with r obj (snd (apply_op w op))"
proof (cases op)
  case AllocatePlaceholder
  with populated_allocate_step[OF assms] show ?thesis
    by (cases "allocate_placeholder w") simp
next
  case (AddObject obj' s io)
  show ?thesis
  proof (cases "add_object w obj' s io")
    case (Inl e)
    with AddObject assms show ?thesis by simp
  next
    case (Inr p)
    obtain r' w' where p: "p = (r', w')" by (cases p)
    with populated_add_step[OF assms] Inr AddObject show ?thesis by simp
  qed
next
  case (PrepareObjectStream c)
  show ?thesis
  proof (cases "prepare_object_stream w c")
    case (Inl e)
    with PrepareObjectStream assms show ?thesis by simp
  next
    case (Inr p)
    obtain h w' where p: "p = (h, w')" by (cases p)
    with populated_prepare_step[OF assms] Inr PrepareObjectStream show ?thesis by simp
  qed
qed

lemma populated_run:
  "populated_with r obj w \<Longrightarrow> populated_with r obj (run_ops w ops)"
  by (induction ops arbitrary: w) (simp_all add: populated_step)

text \<open>
  Claim C1 (placeholder safety). On a writer whose store satisfies \<open>store_inv\<close>, after
  \<open>allocate_placeholder\<close> returns \<open>r\<close>, and after any further store operations none of
  which populates \<open>r\<close>, \<open>get_object\<close> on \<open>r\<close> returns the null object (it does not raise
  and returns no other value); populating it by \<open>add_object\<close> with that id succeeds and
  returns \<open>r\<close> again, and from then on, after any store operations whatever, \<open>get_object\<close>
  on \<open>r\<close> returns the populated value.
\<close>

theorem placeholder_safety:
  assumes "store_inv w" and "allocate_placeholder w = (r, w1)"
    and "\<forall>op \<in> set ops. \<not> populates r op"
  shows "get_object (run_ops w1 ops) r = Inr NullObject
    \<and> (\<exists>w2. add_object (run_ops w1 ops) obj None (Some (idnum r)) = Inr (r, w2))
    \<and> (\<forall>s r' w2 ops'. add_object (run_ops w1 ops) obj s (Some (idnum r)) = Inr (r', w2)
          \<longrightarrow> r' = r \<and> get_object (run_ops w2 ops') r = Inr obj)"
proof -
  have p: "pending r (run_ops w1 ops)"
    using assms pending_allocate pending_run by blast
  show ?thesis
  proof (intro conjI allI impI)
    show "get_object (run_ops w1 ops) r = Inr NullObject"
      using p by (rule pending_get_object)
    show "\<exists>w2. add_object (run_ops w1 ops) obj None (Some (idnum r)) = Inr (r, w2)"
      using p by (rule populate_pending_ex)
  next
    fix s r' w2 ops'
    assume a: "add_object (run_ops w1 ops) obj s (Some (idnum r)) = Inr (r', w2)"
    from populate_pending[OF p a] show "r' = r" by simp
    from populate_pending[OF p a] have "populated_with r obj w2" by simp
    then show "get_object (run_ops w2 ops') r = Inr obj"
      using populated_run populated_get by blast
  qed
qed

theorem placeholder_safety_witness:
  "get_object
     (run_ops (snd (allocate_placeholder
        (BasePdfFileWriter_init 7 (DictionaryObject []) None (ArrayObject []) 0 True)))
        [AddObject (NumberObject 5) None None, AllocatePlaceholder])
     (Reference 2 0 7) = Inr NullObject
   \<and> (\<exists>w2. add_object
          (run_ops (snd (allocate_placeholder
             (BasePdfFileWriter_init 7 (DictionaryObject []) None (ArrayObject []) 0 True)))
             [AddObject (NumberObject 5) None None, AllocatePlaceholder])
          (NameObject ''/X'') None (Some 2) = Inr (Reference 2 0 7, w2))"
proof -
  let ?w = "BasePdfFileWriter_init 7 (DictionaryObject []) None (ArrayObject []) 0 True"
  let ?ops = "[AddObject (NumberObject 5) None None, AllocatePlaceholder]"
  have inv: "store_inv ?w"
    by (simp add: store_inv_def BasePdfFileWriter_init_def add_object_def Let_def)
  have al: "allocate_placeholder ?w = (Reference 2 0 7, snd (allocate_placeholder ?w))"
    by (simp add: allocate_placeholder_def BasePdfFileWriter_init_def add_object_def Let_def)
  have np: "\<forall>op \<in> set ?ops. \<not> populates (Reference 2 0 7) op"
    by simp
  from placeholder_safety[OF inv al np, of "NameObject ''/X''"] show ?thesis
    by simp
qed

subsection \<open>Identity of the references returned\<close>

text \<open>
  The identity of a reference is its pair of generation and id. \<open>returned_by P\<close> lists
  the references that the calls satisfying \<open>P\<close> returned, in order; a call that raised
  returned none. A call allocates when it reserves a new id: \<open>allocate_placeholder\<close>, and
  \<open>add_object\<close> without \<^verbatim>\<open>idnum\<close>.
\<close>

definition ident :: "reference \<Rightarrow> int \<times> int" where
  "ident r = (generation r, idnum r)"

fun allocates :: "store_op \<Rightarrow> bool" where
  "allocates AllocatePlaceholder = True"
| "allocates (AddObject obj s None) = True"
| "allocates op = False"

fun returned_by :: "(store_op \<Rightarrow> bool) \<Rightarrow> writer \<Rightarrow> store_op list \<Rightarrow> reference list" where
  "returned_by P w [] = []"
| "returned_by P w (x # xs) =
     (case fst (apply_op w x) of
        Some r \<Rightarrow> if P x then [r] else []
      | None \<Rightarrow> [])
     @ returned_by P (snd (apply_op w x)) xs"

lemma store_inv_step: "store_inv w \<Longrightarrow> store_inv (snd (apply_op w x))"
proof (cases x)
  case AllocatePlaceholder
  assume "store_inv w"
  with AllocatePlaceholder store_inv_allocate[of w] show ?thesis
    by (cases "allocate_placeholder w") simp
next
  case (AddObject obj s io)
  assume inv: "store_inv w"
  show ?thesis
  proof (cases "add_object w obj s io")
    case (Inl e)
    with AddObject inv show ?thesis by simp
  next
    case (Inr p)
    obtain r' w' where p: "p = (r', w')" by (cases p)
    with store_inv_add[OF inv] Inr AddObject show ?thesis by simp
  qed
next
  case (PrepareObjectStream c)
  assume inv: "store_inv w"
  show ?thesis
  proof (cases "prepare_object_stream w c")
    case (Inl e)
    with PrepareObjectStream inv show ?thesis by simp
  next
    case (Inr p)
    obtain h w' where p: "p = (h, w')" by (cases p)
    with store_inv_prepare[OF inv] Inr PrepareObjectStream show ?thesis by simp
  qed
qed

lemma step_effect:
  "lastobj_id w \<le> lastobj_id (snd (apply_op w x))
   \<and> (\<forall>i \<in> allocated_placeholders (snd (apply_op w x)).
         i \<in> allocated_placeholders w \<or> lastobj_id w < i)
   \<and> (\<forall>r. fst (apply_op w x) = Some r \<and> allocates x \<longrightarrow>
         ident r = (0, lastobj_id w + 1) \<and> lastobj_id (snd (apply_op w x)) = lastobj_id w + 1)
   \<and> (\<forall>r. fst (apply_op w x) = Some r \<and> \<not> allocates x \<longrightarrow>
         fst (ident r) = 0 \<and> snd (ident r) \<in> allocated_placeholders w
         \<and> snd (ident r) \<notin> allocated_placeholders (snd (apply_op w x)))"
proof (cases x)
  case AllocatePlaceholder
  then show ?thesis by (simp add: allocate_placeholder_def Let_def ident_def)
next
  case (PrepareObjectStream c)
  then show ?thesis
    by (cases "stream_xrefs w") (simp_all add: prepare_object_stream_def Let_def)
next
  case (AddObject obj s io)
  show ?thesis
  proof (cases "add_object w obj s io")
    case (Inl e)
    with AddObject show ?thesis by simp
  next
    case (Inr p)
    obtain r' w' where p: "p = (r', w')" by (cases p)
    from Inr[unfolded p] show ?thesis
    proof (cases rule: add_object_cases)
      case fresh_direct
      with AddObject Inr p show ?thesis by (simp add: ident_def)
    next
      case (fresh_stream h os)
      with AddObject Inr p show ?thesis by (simp add: ident_def)
    next
      case (pre_direct i)
      with AddObject Inr p show ?thesis by (simp add: ident_def)
    next
      case (pre_stream h os i)
      with AddObject Inr p show ?thesis by (simp add: ident_def)
    qed
  qed
qed


lemma allocating_refs_above:
  "r \<in> set (returned_by allocates w ops) \<Longrightarrow> fst (ident r) = 0 \<and> lastobj_id w < snd (ident r)"
proof (induction ops arbitrary: w)
  case Nil
  then show ?case by simp
next
  case (Cons x xs)
  let ?w' = "snd (apply_op w x)"
  note e = step_effect[of w x]
  from Cons.prems consider
      (hd) "fst (apply_op w x) = Some r" "allocates x"
    | (tl) "r \<in> set (returned_by allocates ?w' xs)"
    by (auto split: option.splits if_splits)
  then show ?case
  proof cases
    case hd
    with e have "ident r = (0, lastobj_id w + 1)" by blast
    then show ?thesis by simp
  next
    case tl
    from Cons.IH[OF tl] e show ?thesis by auto
  qed
qed

lemma allocating_refs_distinct:
  "distinct (map ident (returned_by allocates w ops))"
proof (induction ops arbitrary: w)
  case Nil
  then show ?case by simp
next
  case (Cons x xs)
  let ?w' = "snd (apply_op w x)"
  note e = step_effect[of w x]
  show ?case
  proof (cases "\<exists>r. fst (apply_op w x) = Some r \<and> allocates x")
    case True
    then obtain r where r: "fst (apply_op w x) = Some r" "allocates x" by blast
    with e have id: "ident r = (0, lastobj_id w + 1)"
      and l: "lastobj_id ?w' = lastobj_id w + 1" by blast+
    have "ident r \<notin> ident ` set (returned_by allocates ?w' xs)"
    proof
      assume "ident r \<in> ident ` set (returned_by allocates ?w' xs)"
      then obtain r' where r': "r' \<in> set (returned_by allocates ?w' xs)" "ident r' = ident r"
        by auto
      from allocating_refs_above[OF r'(1)] r'(2) id l show False by simp
    qed
    with r Cons.IH[of ?w'] show ?thesis by simp
  next
    case False
    then have "returned_by allocates w (x # xs) = returned_by allocates ?w' xs"
      by (auto split: option.splits)
    with Cons.IH[of ?w'] show ?thesis by simp
  qed
qed

lemma populating_refs_pending:
  "r \<in> set (returned_by (\<lambda>x. \<not> allocates x) w ops) \<Longrightarrow>
     snd (ident r) \<in> allocated_placeholders w \<or> lastobj_id w < snd (ident r)"
proof (induction ops arbitrary: w)
  case Nil
  then show ?case by simp
next
  case (Cons x xs)
  let ?w' = "snd (apply_op w x)"
  note e = step_effect[of w x]
  from Cons.prems consider
      (hd) "fst (apply_op w x) = Some r" "\<not> allocates x"
    | (tl) "r \<in> set (returned_by (\<lambda>x. \<not> allocates x) ?w' xs)"
    by (auto split: option.splits if_splits)
  then show ?case
  proof cases
    case hd
    with e show ?thesis by blast
  next
    case tl
    from Cons.IH[OF tl] e show ?thesis by auto
  qed
qed

lemma populating_refs_distinct:
  "store_inv w \<Longrightarrow> distinct (map ident (returned_by (\<lambda>x. \<not> allocates x) w ops))"
proof (induction ops arbitrary: w)
  case Nil
  then show ?case by simp
next
  case (Cons x xs)
  let ?w' = "snd (apply_op w x)"
  note e = step_effect[of w x]
  have inv': "store_inv ?w'" using Cons.prems by (rule store_inv_step)
  show ?case
  proof (cases "\<exists>r. fst (apply_op w x) = Some r \<and> \<not> allocates x")
    case True
    then obtain r where r: "fst (apply_op w x) = Some r" "\<not> allocates x" by blast
    with e have z: "fst (ident r) = 0" and m: "snd (ident r) \<in> allocated_placeholders w"
      and n: "snd (ident r) \<notin> allocated_placeholders ?w'" by blast+
    from m Cons.prems have "snd (ident r) \<le> lastobj_id w" by (simp add: store_inv_def)
    with e have b: "snd (ident r) \<le> lastobj_id ?w'" by simp
    have "ident r \<notin> ident ` set (returned_by (\<lambda>x. \<not> allocates x) ?w' xs)"
    proof
      assume "ident r \<in> ident ` set (returned_by (\<lambda>x. \<not> allocates x) ?w' xs)"
      then obtain r' where r': "r' \<in> set (returned_by (\<lambda>x. \<not> allocates x) ?w' xs)"
        "ident r' = ident r" by auto
      from populating_refs_pending[OF r'(1)] r'(2) n b show False by simp
    qed
    with r Cons.IH[OF inv'] show ?thesis by simp
  next
    case False
    then have "returned_by (\<lambda>x. \<not> allocates x) w (x # xs)
        = returned_by (\<lambda>x. \<not> allocates x) ?w' xs"
      by (auto split: option.splits)
    with Cons.IH[OF inv'] show ?thesis by simp
  qed
qed

lemma add_object_returned:
  assumes "store_inv w" "add_object w obj s io = Inr (r, w')"
  shows "idnum r \<notin> allocated_placeholders w' \<and> idnum r \<le> lastobj_id w'
       \<and> (idnum r \<in> allocated_placeholders w \<or> lastobj_id w < idnum r)"
  using assms(2)
proof (cases rule: add_object_cases)
  case fresh_direct
  with assms(1) show ?thesis by (auto simp: store_inv_def)
next
  case (fresh_stream h os)
  with assms(1) show ?thesis by (auto simp: store_inv_def)
next
  case (pre_direct i)
  with assms(1) show ?thesis by (auto simp: store_inv_def)
next
  case (pre_stream h os i)
  with assms(1) show ?thesis by (auto simp: store_inv_def)
qed

lemma add_call_returned:
  assumes "store_inv w" "x \<noteq> AllocatePlaceholder" "fst (apply_op w x) = Some r"
  shows "snd (ident r) \<notin> allocated_placeholders (snd (apply_op w x))
       \<and> snd (ident r) \<le> lastobj_id (snd (apply_op w x))
       \<and> (snd (ident r) \<in> allocated_placeholders w \<or> lastobj_id w < snd (ident r))"
proof (cases x)
  case AllocatePlaceholder
  with assms show ?thesis by simp
next
  case (PrepareObjectStream c)
  with assms(3) show ?thesis
    by (cases "prepare_object_stream w c") (auto split: prod.splits)
next
  case (AddObject obj s io)
  show ?thesis
  proof (cases "add_object w obj s io")
    case (Inl e)
    with AddObject assms(3) show ?thesis by simp
  next
    case (Inr p)
    obtain r' w' where p: "p = (r', w')" by (cases p)
    with Inr AddObject assms(3) have r: "r' = r" by simp
    from add_object_returned[OF assms(1) Inr[unfolded p]] r Inr p AddObject
    show ?thesis by (simp add: ident_def)
  qed
qed

lemma add_refs_pending:
  "r \<in> set (returned_by (\<lambda>x. x \<noteq> AllocatePlaceholder) w ops) \<Longrightarrow> store_inv w \<Longrightarrow>
     snd (ident r) \<in> allocated_placeholders w \<or> lastobj_id w < snd (ident r)"
proof (induction ops arbitrary: w)
  case Nil
  then show ?case by simp
next
  case (Cons x xs)
  let ?w' = "snd (apply_op w x)"
  note e = step_effect[of w x]
  have inv': "store_inv ?w'" using Cons.prems(2) by (rule store_inv_step)
  from Cons.prems(1) consider
      (hd) "fst (apply_op w x) = Some r" "x \<noteq> AllocatePlaceholder"
    | (tl) "r \<in> set (returned_by (\<lambda>x. x \<noteq> AllocatePlaceholder) ?w' xs)"
    by (auto split: option.splits if_splits)
  then show ?case
  proof cases
    case hd
    from add_call_returned[OF Cons.prems(2) hd(2) hd(1)] show ?thesis by blast
  next
    case tl
    from Cons.IH[OF tl inv'] e show ?thesis by auto
  qed
qed

lemma add_refs_distinct:
  "store_inv w \<Longrightarrow> distinct (map ident (returned_by (\<lambda>x. x \<noteq> AllocatePlaceholder) w ops))"
proof (induction ops arbitrary: w)
  case Nil
  then show ?case by simp
next
  case (Cons x xs)
  let ?w' = "snd (apply_op w x)"
  have inv': "store_inv ?w'" using Cons.prems by (rule store_inv_step)
  show ?case
  proof (cases "\<exists>r. fst (apply_op w x) = Some r \<and> x \<noteq> AllocatePlaceholder")
    case True
    then obtain r where r: "fst (apply_op w x) = Some r" "x \<noteq> AllocatePlaceholder" by blast
    note a = add_call_returned[OF Cons.prems r(2) r(1)]
    have "ident r \<notin> ident ` set (returned_by (\<lambda>x. x \<noteq> AllocatePlaceholder) ?w' xs)"
    proof
      assume "ident r \<in> ident ` set (returned_by (\<lambda>x. x \<noteq> AllocatePlaceholder) ?w' xs)"
      then obtain r' where r': "r' \<in> set (returned_by (\<lambda>x. x \<noteq> AllocatePlaceholder) ?w' xs)"
        "ident r' = ident r" by auto
      from add_refs_pending[OF r'(1) inv'] r'(2) a show False by simp
    qed
    with r Cons.IH[OF inv'] show ?thesis by simp
  next
    case False
    then have "returned_by (\<lambda>x. x \<noteq> AllocatePlaceholder) w (x # xs)
        = returned_by (\<lambda>x. x \<noteq> AllocatePlaceholder) ?w' xs"
      by (auto split: option.splits)
    with Cons.IH[OF inv'] show ?thesis by simp
  qed
qed

lemma self_id_step: "self_id (snd (apply_op w x)) = self_id w"
proof (cases x)
  case AllocatePlaceholder
  then show ?thesis by (simp add: allocate_placeholder_def Let_def)
next
  case (PrepareObjectStream c)
  then show ?thesis
    by (cases "stream_xrefs w") (simp_all add: prepare_object_stream_def Let_def)
next
  case (AddObject obj s io)
  show ?thesis
  proof (cases "add_object w obj s io")
    case (Inl e)
    with AddObject show ?thesis by simp
  next
    case (Inr p)
    obtain r' w' where p: "p = (r', w')" by (cases p)
    from Inr[unfolded p] have "self_id w' = self_id w"
      by (cases rule: add_object_cases) simp_all
    with Inr p AddObject show ?thesis by simp
  qed
qed

lemma placeholder_step_origin:
  assumes "i \<in> allocated_placeholders (snd (apply_op w x))"
  shows "i \<in> allocated_placeholders w
       \<or> (x = AllocatePlaceholder \<and> fst (apply_op w x) = Some (Reference i 0 (self_id w)))"
proof (cases x)
  case AllocatePlaceholder
  with assms show ?thesis by (auto simp: allocate_placeholder_def Let_def)
next
  case (PrepareObjectStream c)
  with assms show ?thesis
    by (cases "stream_xrefs w") (simp_all add: prepare_object_stream_def Let_def)
next
  case (AddObject obj s io)
  show ?thesis
  proof (cases "add_object w obj s io")
    case (Inl e)
    with AddObject assms show ?thesis by simp
  next
    case (Inr p)
    obtain r' w' where p: "p = (r', w')" by (cases p)
    from Inr[unfolded p] have "allocated_placeholders w' \<subseteq> allocated_placeholders w"
      by (cases rule: add_object_cases) auto
    with Inr p AddObject assms show ?thesis by auto
  qed
qed

lemma placeholder_origin:
  "i \<in> allocated_placeholders (run_ops w pre) \<Longrightarrow>
     i \<in> allocated_placeholders w
     \<or> Reference i 0 (self_id w) \<in> set (returned_by (\<lambda>x. x = AllocatePlaceholder) w pre)"
proof (induction pre arbitrary: w)
  case Nil
  then show ?case by simp
next
  case (Cons x xs)
  let ?w' = "snd (apply_op w x)"
  from Cons.prems have "i \<in> allocated_placeholders (run_ops ?w' xs)" by simp
  from Cons.IH[OF this] consider
      (now) "i \<in> allocated_placeholders ?w'"
    | (later) "Reference i 0 (self_id w)
        \<in> set (returned_by (\<lambda>x. x = AllocatePlaceholder) ?w' xs)"
    by (auto simp: self_id_step)
  then show ?case
  proof cases
    case now
    from placeholder_step_origin[OF now] show ?thesis by auto
  next
    case later
    then show ?thesis by simp
  qed
qed

lemma self_id_run: "self_id (run_ops w ops) = self_id w"
  by (induction ops arbitrary: w) (simp_all add: self_id_step)

lemma populating_call_returns:
  assumes "fst (apply_op w (AddObject obj s (Some i))) = Some r"
  shows "r = Reference i 0 (self_id w) \<and> i \<in> allocated_placeholders w"
proof (cases "add_object w obj s (Some i)")
  case (Inl e)
  with assms show ?thesis by simp
next
  case (Inr p)
  obtain r' w' where p: "p = (r', w')" by (cases p)
  with Inr assms have r: "r' = r" by simp
  from Inr[unfolded p] r show ?thesis
    by (cases rule: add_object_cases) simp_all
qed

text \<open>
  Claim C6 (identity uniqueness), as stated, fails: \<open>add_object\<close> with \<^verbatim>\<open>idnum\<close> returns
  the identity that \<open>allocate_placeholder\<close> returned for the placeholder it populates.
\<close>

theorem identity_uniqueness_counterexample:
  "\<not> distinct (map ident (returned_by (\<lambda>x. True)
       (BasePdfFileWriter_init 7 (DictionaryObject []) None (ArrayObject []) 0 True)
       [AllocatePlaceholder, AddObject NullObject None (Some 2)]))"
  by (simp add: BasePdfFileWriter_init_def add_object_def Let_def
      allocate_placeholder_def ident_def)

text \<open>
  Claim C6, amended. On a writer whose store satisfies \<open>store_inv\<close>, for every sequence
  of store calls: no two references returned by \<open>add_object\<close> calls (with or without
  \<^verbatim>\<open>idnum\<close>) share an identity; no two references returned by allocating calls
  (\<open>allocate_placeholder\<close>, and \<open>add_object\<close> without \<^verbatim>\<open>idnum\<close>) share an identity; and a
  call of \<open>add_object\<close> with \<^verbatim>\<open>idnum\<close> = \<open>i\<close> that returns, returns the identity
  \<open>(0, i)\<close> of the placeholder it populates, which was pending at the start or was
  returned by an earlier \<open>allocate_placeholder\<close> of the sequence. So two returned
  references share an identity only when one comes from \<open>allocate_placeholder\<close> and the
  other from the \<open>add_object\<close> call that populates that placeholder.
\<close>

theorem returned_identities:
  assumes "store_inv w"
  shows "distinct (map ident (returned_by (\<lambda>x. x \<noteq> AllocatePlaceholder) w ops))
       \<and> distinct (map ident (returned_by allocates w ops))
       \<and> (\<forall>pre obj s i post r.
             ops = pre @ AddObject obj s (Some i) # post
             \<and> fst (apply_op (run_ops w pre) (AddObject obj s (Some i))) = Some r
             \<longrightarrow> ident r = (0, i)
                \<and> (i \<in> allocated_placeholders w
                    \<or> r \<in> set (returned_by (\<lambda>x. x = AllocatePlaceholder) w pre)))"
proof (intro conjI allI impI)
  show "distinct (map ident (returned_by (\<lambda>x. x \<noteq> AllocatePlaceholder) w ops))"
    using assms by (rule add_refs_distinct)
  show "distinct (map ident (returned_by allocates w ops))"
    by (rule allocating_refs_distinct)
next
  fix pre obj s i post r
  assume a: "ops = pre @ AddObject obj s (Some i) # post
      \<and> fst (apply_op (run_ops w pre) (AddObject obj s (Some i))) = Some r"
  from populating_call_returns[of "run_ops w pre" obj s i r] a
  have r: "r = Reference i 0 (self_id w)" and m: "i \<in> allocated_placeholders (run_ops w pre)"
    by (simp_all add: self_id_run)
  show "ident r = (0, i)" using r by (simp add: ident_def)
  from placeholder_origin[OF m] r
  show "i \<in> allocated_placeholders w
      \<or> r \<in> set (returned_by (\<lambda>x. x = AllocatePlaceholder) w pre)" by simp
qed


theorem returned_identities_witness:
  "map ident (returned_by (\<lambda>x. x \<noteq> AllocatePlaceholder)
       (BasePdfFileWriter_init 7 (DictionaryObject []) None (ArrayObject []) 0 True)
       [AllocatePlaceholder, AllocatePlaceholder, AddObject NullObject None (Some 2),
        AddObject (NumberObject 1) None None, AddObject NullObject None (Some 3),
        AddObject NullObject None (Some 3)]) = [(0, 2), (0, 4), (0, 3)]
   \<and> distinct (map ident (returned_by (\<lambda>x. x \<noteq> AllocatePlaceholder)
       (BasePdfFileWriter_init 7 (DictionaryObject []) None (ArrayObject []) 0 True)
       [AllocatePlaceholder, AllocatePlaceholder, AddObject NullObject None (Some 2),
        AddObject (NumberObject 1) None None, AddObject NullObject None (Some 3),
        AddObject NullObject None (Some 3)]))
   \<and> map ident (returned_by allocates
       (BasePdfFileWriter_init 7 (DictionaryObject []) None (ArrayObject []) 0 True)
       [AllocatePlaceholder, AllocatePlaceholder, AddObject NullObject None (Some 2),
        AddObject (NumberObject 1) None None, AddObject NullObject None (Some 3),
        AddObject NullObject None (Some 3)]) = [(0, 2), (0, 3), (0, 4)]
   \<and> distinct (map ident (returned_by allocates
       (BasePdfFileWriter_init 7 (DictionaryObject []) None (ArrayObject []) 0 True)
       [AllocatePlaceholder, AllocatePlaceholder, AddObject NullObject None (Some 2),
        AddObject (NumberObject 1) None None, AddObject NullObject None (Some 3),
        AddObject NullObject None (Some 3)]))
   \<and> ident (Reference 3 0 7) = (0, 3)
   \<and> Reference 3 0 7 \<in> set (returned_by (\<lambda>x. x = AllocatePlaceholder)
       (BasePdfFileWriter_init 7 (DictionaryObject []) None (ArrayObject []) 0 True)
       [AllocatePlaceholder, AllocatePlaceholder, AddObject NullObject None (Some 2),
        AddObject (NumberObject 1) None None])"
proof -
  let ?w = "BasePdfFileWriter_init 7 (DictionaryObject []) None (ArrayObject []) 0 True"
  let ?pre = "[AllocatePlaceholder, AllocatePlaceholder, AddObject NullObject None (Some 2),
        AddObject (NumberObject 1) None None]"
  let ?ops = "?pre @ AddObject NullObject None (Some 3) # [AddObject NullObject None (Some 3)]"
  have inv: "store_inv ?w"
    by (simp add: store_inv_def BasePdfFileWriter_init_def add_object_def Let_def)
  have ev: "fst (apply_op (run_ops ?w ?pre) (AddObject NullObject None (Some 3)))
      = Some (Reference 3 0 7)"
    by (simp add: BasePdfFileWriter_init_def add_object_def Let_def allocate_placeholder_def)
  have e1: "map ident (returned_by (\<lambda>x. x \<noteq> AllocatePlaceholder) ?w ?ops)
      = [(0, 2), (0, 4), (0, 3)]"
    by (simp add: BasePdfFileWriter_init_def add_object_def Let_def
        allocate_placeholder_def ident_def)
  have e2: "map ident (returned_by allocates ?w ?ops) = [(0, 2), (0, 3), (0, 4)]"
    by (simp add: BasePdfFileWriter_init_def add_object_def Let_def
        allocate_placeholder_def ident_def)
  note t = returned_identities[OF inv, of ?ops]
  have d1: "distinct (map ident (returned_by (\<lambda>x. x \<noteq> AllocatePlaceholder) ?w ?ops))"
    using t by (rule conjunct1)
  have d2: "distinct (map ident (returned_by allocates ?w ?ops))"
    using t by (elim conjE)
  have c: "ident (Reference 3 0 7) = (0, 3)
      \<and> (3 \<in> allocated_placeholders ?w
          \<or> Reference 3 0 7 \<in> set (returned_by (\<lambda>x. x = AllocatePlaceholder) ?w ?pre))"
    by (rule t[THEN conjunct2, THEN conjunct2, rule_format, OF conjI[OF refl ev]])
  have np: "3 \<notin> allocated_placeholders ?w"
    by (simp add: BasePdfFileWriter_init_def add_object_def Let_def)
  from c np have c': "Reference 3 0 7
      \<in> set (returned_by (\<lambda>x. x = AllocatePlaceholder) ?w ?pre)" by blast
  show ?thesis
    using e1 d1 e2 d2 c c' by (simp only: append_Cons append_Nil simp_thms)
qed

section \<open>The cross-reference encoder\<close>

text \<open>
  The position map of a write pass: keys are pairs of generation and id, in insertion
  order; a position is a byte offset, or the number of an object stream and the index
  in it. \<open>chunks_loop\<close> is the loop of \<^verbatim>\<open>_contiguous_xref_chunks\<close>, with the chunks it
  yields collected in \<open>out\<close>; \<^verbatim>\<open>peek\<close> on an empty map ends the generator with
  \<^verbatim>\<open>StopIteration\<close>, a \<^verbatim>\<open>RuntimeError\<close> for the caller. The output stream is the
  string of the bytes written so far, and \<^verbatim>\<open>stream.tell()\<close> is its length.
\<close>

datatype position = Offset int | InObjStm int int

type_synonym position_dict = "((int \<times> int) \<times> position) list"

fun chunks_loop ::
  "position_dict \<Rightarrow> (int \<times> int) list \<Rightarrow> int option \<Rightarrow> (position \<times> int) list \<Rightarrow> int
     \<Rightarrow> (int \<times> (position \<times> int) list) list
     \<Rightarrow> error + (int \<times> (position \<times> int) list) list" where
  "chunks_loop pd [] previous_idnum current_chunk first_idnum out =
     Inr (out @ [(first_idnum, current_chunk)])"
| "chunks_loop pd ((g, i) # ks) previous_idnum current_chunk first_idnum out =
     (case map_of pd (g, i) of
        None \<Rightarrow> Inl KeyError
      | Some p \<Rightarrow>
          if current_chunk \<noteq> [] then
            (case previous_idnum of
               None \<Rightarrow> Inl TypeError
             | Some q \<Rightarrow>
                 if i \<noteq> q + 1
                 then chunks_loop pd ks (Some i) [(p, g)] i (out @ [(first_idnum, current_chunk)])
                 else chunks_loop pd ks (Some i) (current_chunk @ [(p, g)]) first_idnum out)
          else chunks_loop pd ks (Some i) (current_chunk @ [(p, g)]) first_idnum out)"

definition contiguous_xref_chunks ::
  "position_dict \<Rightarrow> error + (int \<times> (position \<times> int) list) list" where
  "contiguous_xref_chunks pd =
     (case sort_key snd (map fst pd) of
        [] \<Rightarrow> Inl RuntimeError
      | (g, first_idnum) # _ \<Rightarrow>
          chunks_loop pd (sort_key snd (map fst pd)) None [] first_idnum [])"

text \<open>
  \<open>run_headers\<close> follows the words of the specification: sort the ids, and start a new
  run whenever the id is not exactly one greater than the previous id of the current run.
  It gives each run's first id and length. \<open>chunk_ids\<close> lists the ids a chunk stands for,
  and \<open>maximal_runs\<close> says that no chunk continues the one before it.
\<close>

definition entry :: "position_dict \<Rightarrow> int \<times> int \<Rightarrow> position \<times> int" where
  "entry pd k = (the (map_of pd k), fst k)"

fun chunk_ids :: "int \<times> 'a list \<Rightarrow> int list" where
  "chunk_ids (f, c) = map (\<lambda>j. f + int j) [0..<length c]"

fun maximal_runs :: "(int \<times> 'a list) list \<Rightarrow> bool" where
  "maximal_runs [] = True"
| "maximal_runs [x] = True"
| "maximal_runs ((f1, c1) # (f2, c2) # rest) =
     (f2 \<noteq> f1 + int (length c1) \<and> maximal_runs ((f2, c2) # rest))"

fun run_headers_from :: "int list \<Rightarrow> int \<Rightarrow> nat \<Rightarrow> (int \<times> nat) list" where
  "run_headers_from [] first n = [(first, n)]"
| "run_headers_from (i # is) first n =
     (if i \<noteq> first + int n then (first, n) # run_headers_from is i 1
      else run_headers_from is first (Suc n))"

definition run_headers :: "int list \<Rightarrow> (int \<times> nat) list" where
  "run_headers ids = (case sort ids of [] \<Rightarrow> [] | i # is \<Rightarrow> run_headers_from is i 1)"

definition header :: "int \<times> 'a list \<Rightarrow> int \<times> nat" where
  "header c = (fst c, length (snd c))"

fun err_bind :: "error + 'a \<Rightarrow> ('a \<Rightarrow> error + 'b) \<Rightarrow> error + 'b" where
  "err_bind (Inl e) f = Inl e"
| "err_bind (Inr x) f = f x"

definition digit_char :: "nat \<Rightarrow> char" where
  "digit_char d = char_of (48 + d)"

function show_nat :: "nat \<Rightarrow> string" where
  "show_nat n = (if n < 10 then [digit_char n] else show_nat (n div 10) @ [digit_char (n mod 10)])"
  by pat_completeness auto

termination
  by (relation "measure id") auto

declare show_nat.simps [simp del]

definition fmt_d :: "int \<Rightarrow> string" where
  "fmt_d n = (if n < 0 then CHR ''-'' # show_nat (nat (- n)) else show_nat (nat n))"

definition zpad :: "nat \<Rightarrow> string \<Rightarrow> string" where
  "zpad w s = replicate (w - length s) CHR ''0'' @ s"

definition fmt_0d :: "nat \<Rightarrow> int \<Rightarrow> string" where
  "fmt_0d w n = (if n < 0 then CHR ''-'' # zpad (w - 1) (show_nat (nat (- n)))
                 else zpad w (show_nat (nat n)))"

definition write_header :: "int \<Rightarrow> int \<Rightarrow> string" where
  "write_header i len = fmt_d i @ '' '' @ fmt_d len @ ''\<newline>''"

fun xref_entry :: "position \<times> int \<Rightarrow> error + string" where
  "xref_entry (Offset p, g) = Inr (fmt_0d 10 p @ '' '' @ fmt_0d 5 g @ '' n \<newline>'')"
| "xref_entry (InObjStm n ix, g) = Inl TypeError"

fun write_subsection :: "string \<Rightarrow> (position \<times> int) list \<Rightarrow> error + string" where
  "write_subsection stream [] = Inr stream"
| "write_subsection stream (e # es) =
     err_bind (xref_entry e) (\<lambda>l. write_subsection (stream @ l) es)"

fun write_sections ::
  "string \<Rightarrow> (int \<times> (position \<times> int) list) list \<Rightarrow> error + string" where
  "write_sections stream [] = Inr stream"
| "write_sections stream ((first_idnum, subsection) # rest) =
     err_bind
       (write_subsection (stream @ write_header first_idnum (int (length subsection)))
          subsection)
       (\<lambda>s. write_sections s rest)"

definition null_obj_ref :: string where
  "null_obj_ref = ''0000000000 65535 f \<newline>''"

definition write_xref_table :: "string \<Rightarrow> position_dict \<Rightarrow> error + (nat \<times> string)" where
  "write_xref_table stream pd =
     (let xref_location = length stream;
          s1 = stream @ ''xref\<newline>''
      in err_bind (contiguous_xref_chunks pd) (\<lambda>subsections.
           case subsections of
             [] \<Rightarrow> Inl RuntimeError
           | (first_idnum, subsection) # rest \<Rightarrow>
               err_bind
                 (if first_idnum = 1
                  then write_subsection
                         (s1 @ write_header 0 (int (length subsection) + 1) @ null_obj_ref)
                         subsection
                  else write_subsection
                         (s1 @ ''0 1\<newline>'' @ null_obj_ref
                             @ write_header first_idnum (int (length subsection)))
                         subsection)
                 (\<lambda>s2. err_bind (write_sections s2 rest) (\<lambda>s3. Inr (xref_location, s3)))))"

fun is_offset :: "position \<Rightarrow> bool" where
  "is_offset (Offset p) = True"
| "is_offset (InObjStm n ix) = False"

fun entry_line :: "position \<times> int \<Rightarrow> string" where
  "entry_line (Offset p, g) = fmt_0d 10 p @ '' '' @ fmt_0d 5 g @ '' n \<newline>''"
| "entry_line (InObjStm n ix, g) = []"

definition section_text :: "int \<times> (position \<times> int) list \<Rightarrow> string" where
  "section_text c = write_header (fst c) (int (length (snd c))) @ concat (map entry_line (snd c))"

subsection \<open>Runs of consecutive ids\<close>

lemma maximal_runs_Cons:
  "cs \<noteq> [] \<Longrightarrow> fst (hd cs) \<noteq> f + int (length c) \<Longrightarrow> maximal_runs cs
     \<Longrightarrow> maximal_runs ((f, c) # cs)"
  by (cases cs) auto

lemma chunks_loop_inv:
  assumes "\<forall>k \<in> set ks. map_of pd k \<noteq> None" and "cur \<noteq> []"
  shows "\<exists>cs. chunks_loop pd ks (Some (first + int (length cur) - 1)) cur first out
              = Inr (out @ cs)
     \<and> concat (map snd cs) = cur @ map (entry pd) ks
     \<and> concat (map chunk_ids cs) = chunk_ids (first, cur) @ map snd ks
     \<and> (\<forall>c \<in> set cs. snd c \<noteq> [])
     \<and> maximal_runs cs
     \<and> cs \<noteq> [] \<and> fst (hd cs) = first
     \<and> map header cs = run_headers_from (map snd ks) first (length cur)"
  using assms
proof (induction ks arbitrary: cur first out)
  case Nil
  then show ?case by (simp add: header_def)
next
  case (Cons k ks)
  obtain g i where k: "k = (g, i)" by (cases k)
  from Cons.prems obtain p where p: "map_of pd (g, i) = Some p" by (auto simp: k)
  have e: "entry pd k = (p, g)" by (simp add: entry_def k p)
  have rest: "\<forall>k \<in> set ks. map_of pd k \<noteq> None" using Cons.prems by simp
  show ?case
  proof (cases "i = first + int (length cur)")
    case True
    have step: "chunks_loop pd (k # ks) (Some (first + int (length cur) - 1)) cur first out
        = chunks_loop pd ks (Some (first + int (length (cur @ [(p, g)])) - 1))
            (cur @ [(p, g)]) first out"
      using True Cons.prems(2) p by (simp add: k)
    from Cons.IH[OF rest, of "cur @ [(p, g)]" first out]
    obtain cs where cs: "chunks_loop pd ks (Some (first + int (length (cur @ [(p, g)])) - 1))
          (cur @ [(p, g)]) first out = Inr (out @ cs)"
      "concat (map snd cs) = (cur @ [(p, g)]) @ map (entry pd) ks"
      "concat (map chunk_ids cs) = chunk_ids (first, cur @ [(p, g)]) @ map snd ks"
      "\<forall>c \<in> set cs. snd c \<noteq> []" "maximal_runs cs" "cs \<noteq> []" "fst (hd cs) = first"
      "map header cs = run_headers_from (map snd ks) first (length (cur @ [(p, g)]))"
      by auto
    show ?thesis
    proof (intro exI[of _ cs] conjI)
      show "chunks_loop pd (k # ks) (Some (first + int (length cur) - 1)) cur first out
          = Inr (out @ cs)" using step cs(1) by simp
      show "concat (map snd cs) = cur @ map (entry pd) (k # ks)" using cs(2) e by simp
      show "concat (map chunk_ids cs) = chunk_ids (first, cur) @ map snd (k # ks)"
        using cs(3) True by (simp add: k)
      show "map header cs = run_headers_from (map snd (k # ks)) first (length cur)"
        using cs(8) True by (simp add: k)
    qed (use cs in simp_all)
  next
    case False
    have step: "chunks_loop pd (k # ks) (Some (first + int (length cur) - 1)) cur first out
        = chunks_loop pd ks (Some (i + int (length [(p, g)]) - 1)) [(p, g)] i
            (out @ [(first, cur)])"
      using False Cons.prems(2) p by (simp add: k)
    from Cons.IH[OF rest, of "[(p, g)]" i "out @ [(first, cur)]"]
    obtain cs where cs: "chunks_loop pd ks (Some (i + int (length [(p, g)]) - 1)) [(p, g)] i
          (out @ [(first, cur)]) = Inr ((out @ [(first, cur)]) @ cs)"
      "concat (map snd cs) = [(p, g)] @ map (entry pd) ks"
      "concat (map chunk_ids cs) = chunk_ids (i, [(p, g)]) @ map snd ks"
      "\<forall>c \<in> set cs. snd c \<noteq> []" "maximal_runs cs" "cs \<noteq> []" "fst (hd cs) = i"
      "map header cs = run_headers_from (map snd ks) i (length [(p, g)])"
      by auto
    show ?thesis
    proof (intro exI[of _ "(first, cur) # cs"] conjI)
      show "chunks_loop pd (k # ks) (Some (first + int (length cur) - 1)) cur first out
          = Inr (out @ (first, cur) # cs)" using step cs(1) by simp
      show "concat (map snd ((first, cur) # cs)) = cur @ map (entry pd) (k # ks)"
        using cs(2) e by simp
      show "concat (map chunk_ids ((first, cur) # cs))
          = chunk_ids (first, cur) @ map snd (k # ks)"
        using cs(3) by (simp add: k)
      show "\<forall>c \<in> set ((first, cur) # cs). snd c \<noteq> []" using cs(4) Cons.prems(2) by simp
      show "maximal_runs ((first, cur) # cs)"
        using cs(5,6,7) False by (intro maximal_runs_Cons) simp_all
      show "map header ((first, cur) # cs)
          = run_headers_from (map snd (k # ks)) first (length cur)"
        using cs(8) False by (simp add: k header_def)
    qed simp_all
  qed
qed

lemma map_insort_key: "map f (insort_key f x xs) = insort (f x) (map f xs)"
  by (induction xs) auto

lemma map_sort_key: "map f (sort_key f xs) = sort (map f xs)"
  by (induction xs) (simp_all add: map_insort_key)

lemma contiguous_xref_chunks_ok:
  assumes "pd \<noteq> []"
  shows "\<exists>cs. contiguous_xref_chunks pd = Inr cs
     \<and> concat (map snd cs) = map (entry pd) (sort_key snd (map fst pd))
     \<and> concat (map chunk_ids cs) = sort (map (snd \<circ> fst) pd)
     \<and> (\<forall>c \<in> set cs. snd c \<noteq> [])
     \<and> maximal_runs cs
     \<and> cs \<noteq> []
     \<and> map header cs = run_headers (map (snd \<circ> fst) pd)"
proof -
  let ?ks = "sort_key snd (map fst pd)"
  have "length ?ks = length pd" by simp
  with assms obtain k ks where ks: "?ks = k # ks" by (cases ?ks) auto
  obtain g i where k: "k = (g, i)" by (cases k)
  have ids: "sort (map (snd \<circ> fst) pd) = i # map snd ks"
    using map_sort_key[of snd "map fst pd"] ks k by simp
  have dom: "\<forall>k \<in> set ?ks. map_of pd k \<noteq> None"
    by (simp add: map_of_eq_None_iff)
  then obtain p where p: "map_of pd (g, i) = Some p" using ks k by auto
  have rest: "\<forall>k \<in> set ks. map_of pd k \<noteq> None" using dom ks by simp
  have start: "contiguous_xref_chunks pd
      = chunks_loop pd ks (Some (i + int (length [(p, g)]) - 1)) [(p, g)] i []"
    using ks k p by (simp add: contiguous_xref_chunks_def)
  from chunks_loop_inv[OF rest, of "[(p, g)]" i "[]"]
  obtain cs where cs: "chunks_loop pd ks (Some (i + int (length [(p, g)]) - 1)) [(p, g)] i []
        = Inr ([] @ cs)"
      "concat (map snd cs) = [(p, g)] @ map (entry pd) ks"
      "concat (map chunk_ids cs) = chunk_ids (i, [(p, g)]) @ map snd ks"
      "\<forall>c \<in> set cs. snd c \<noteq> []" "maximal_runs cs" "cs \<noteq> []" "fst (hd cs) = i"
      "map header cs = run_headers_from (map snd ks) i (length [(p, g)])"
    by auto
  show ?thesis
  proof (intro exI[of _ cs] conjI)
    show "contiguous_xref_chunks pd = Inr cs" using start cs(1) by simp
    show "concat (map snd cs) = map (entry pd) ?ks"
      using cs(2) ks k p by (simp add: entry_def)
    show "concat (map chunk_ids cs) = sort (map (snd \<circ> fst) pd)"
      using cs(3) ids by simp
    show "map header cs = run_headers (map (snd \<circ> fst) pd)"
      using cs(8) ids by (simp add: run_headers_def)
  qed (use cs in simp_all)
qed

lemma sorted_ids_example:
  assumes "distinct ids" "set ids = {1, 2, 3, 7, 8, 10}"
  shows "sort ids = [1, 2, 3, 7, 8, 10 :: int]"
  by (rule sorted_distinct_set_unique) (use assms in simp_all)

lemma run_headers_example:
  assumes "distinct ids" "set ids = {1, 2, 3, 7, 8, 10 :: int}"
  shows "run_headers ids = [(1, 3), (7, 2), (10, 1)]"
  using sorted_ids_example[OF assms] by (simp add: run_headers_def)

lemma write_subsection_offsets:
  "\<forall>e \<in> set c. is_offset (fst e) \<Longrightarrow>
     write_subsection stream c = Inr (stream @ concat (map entry_line c))"
proof (induction c arbitrary: stream)
  case Nil
  then show ?case by simp
next
  case (Cons e es)
  obtain p g where e: "e = (p, g)" by (cases e)
  from Cons.prems e obtain q where q: "p = Offset q" by (cases p) auto
  from Cons show ?case by (simp add: e q)
qed

lemma write_sections_offsets:
  "\<forall>c \<in> set cs. \<forall>e \<in> set (snd c). is_offset (fst e) \<Longrightarrow>
     write_sections stream cs = Inr (stream @ concat (map section_text cs))"
proof (induction cs arbitrary: stream)
  case Nil
  then show ?case by simp
next
  case (Cons c cs)
  obtain f sub where c: "c = (f, sub)" by (cases c)
  from Cons.prems have "\<forall>e \<in> set sub. is_offset (fst e)" by (simp add: c)
  from write_subsection_offsets[OF this] Cons show ?case
    by (simp add: c section_text_def)
qed

lemma chunk_entries_offsets:
  assumes "\<forall>e \<in> set pd. is_offset (snd e)"
    and "concat (map snd cs) = map (entry pd) (sort_key snd (map fst pd))"
  shows "\<forall>c \<in> set cs. \<forall>e \<in> set (snd c). is_offset (fst e)"
proof (intro ballI)
  fix c e assume "c \<in> set cs" "e \<in> set (snd c)"
  then have "e \<in> set (concat (map snd cs))" by auto
  with assms(2) obtain k where k: "k \<in> set (map fst pd)" "e = entry pd k"
    by auto
  then obtain v where v: "map_of pd k = Some v"
    by (cases "map_of pd k") (auto simp: map_of_eq_None_iff)
  then have "(k, v) \<in> set pd" by (rule map_of_SomeD)
  with assms(1) have "is_offset v" by auto
  with k v show "is_offset (fst e)" by (simp add: entry_def)
qed

text \<open>
  Reading decimal text back, to say what the formatted numbers are: \<open>read_nat\<close> reads a
  non-empty string of digits (leading zeros allowed), \<open>read_int\<close> also a leading minus sign.
\<close>

definition is_digit :: "char \<Rightarrow> bool" where
  "is_digit c \<longleftrightarrow> 48 \<le> (of_char c :: nat) \<and> (of_char c :: nat) \<le> 57"

definition digits_value :: "string \<Rightarrow> nat" where
  "digits_value s = foldl (\<lambda>a c. 10 * a + (of_char c - 48)) 0 s"

definition read_nat :: "string \<Rightarrow> nat option" where
  "read_nat s = (if s \<noteq> [] \<and> list_all is_digit s then Some (digits_value s) else None)"

definition read_int :: "string \<Rightarrow> int option" where
  "read_int s =
     (case s of
        [] \<Rightarrow> None
      | c # t \<Rightarrow> if c = CHR ''-'' then map_option (\<lambda>n. - int n) (read_nat t)
                 else map_option int (read_nat s))"

lemma of_char_digit_char: "d < 10 \<Longrightarrow> (of_char (digit_char d) :: nat) = 48 + d"
  by (simp add: digit_char_def of_char_of)

lemma is_digit_digit_char: "d < 10 \<Longrightarrow> is_digit (digit_char d)"
  by (simp add: is_digit_def of_char_digit_char)

lemma digits_value_snoc: "digits_value (s @ [c]) = 10 * digits_value s + (of_char c - 48)"
  by (simp add: digits_value_def)

lemma show_nat_props:
  "show_nat n \<noteq> [] \<and> list_all is_digit (show_nat n) \<and> digits_value (show_nat n) = n"
proof (induction n rule: show_nat.induct)
  case (1 n)
  show ?case
  proof (cases "n < 10")
    case True
    then show ?thesis
      by (simp add: show_nat.simps[of n] is_digit_digit_char digits_value_def of_char_digit_char)
  next
    case False
    with 1 have ih: "show_nat (n div 10) \<noteq> []" "list_all is_digit (show_nat (n div 10))"
      "digits_value (show_nat (n div 10)) = n div 10" by simp_all
    have m: "n mod 10 < 10" by simp
    from False ih show ?thesis
      by (simp add: show_nat.simps[of n] is_digit_digit_char[OF m] digits_value_snoc
          of_char_digit_char[OF m])
  qed
qed

lemma read_nat_show_nat: "read_nat (show_nat n) = Some n"
  using show_nat_props[of n] by (simp add: read_nat_def)

lemma hd_show_nat_not_minus: "hd (show_nat n) \<noteq> CHR ''-''"
proof -
  from show_nat_props[of n] obtain c t where s: "show_nat n = c # t" and "is_digit c"
    by (cases "show_nat n") auto
  then have "c \<noteq> CHR ''-''" by (auto simp: is_digit_def)
  with s show ?thesis by simp
qed

lemma read_int_fmt_d: "read_int (fmt_d n) = Some n"
proof (cases "n < 0")
  case True
  then show ?thesis by (simp add: fmt_d_def read_int_def read_nat_show_nat)
next
  case False
  obtain c t where s: "show_nat (nat n) = c # t"
    using show_nat_props[of "nat n"] by (cases "show_nat (nat n)") auto
  with hd_show_nat_not_minus[of "nat n"] have "c \<noteq> CHR ''-''" by simp
  with False s read_nat_show_nat[of "nat n"] show ?thesis
    by (simp add: fmt_d_def read_int_def)
qed

lemma digits_value_zeros: "digits_value (replicate k CHR ''0'' @ s) = digits_value s"
proof -
  have "foldl (\<lambda>a c. 10 * a + (of_char c - 48)) 0 (replicate k CHR ''0'') = (0 :: nat)"
    by (induction k) simp_all
  then show ?thesis by (simp add: digits_value_def)
qed

lemma length_show_nat: "0 < w \<Longrightarrow> n < 10 ^ w \<Longrightarrow> length (show_nat n) \<le> w"
proof (induction n arbitrary: w rule: show_nat.induct)
  case (1 n)
  show ?case
  proof (cases "n < 10")
    case True
    with "1.prems" show ?thesis by (simp add: show_nat.simps[of n])
  next
    case False
    with "1.prems" obtain v where w: "w = Suc v" by (cases w) auto
    have v: "0 < v"
    proof (rule ccontr)
      assume "\<not> 0 < v"
      with w "1.prems" False show False by simp
    qed
    from "1.prems" w have "n div 10 < 10 ^ v"
      by (simp add: less_mult_imp_div_less mult.commute)
    from "1.IH"[OF False v this] False w show ?thesis
      by (simp add: show_nat.simps[of n])
  qed
qed

lemma fmt_0d_fixed_width:
  assumes "0 < w" "0 \<le> n" "n < 10 ^ w"
  shows "length (fmt_0d w n) = w \<and> read_nat (fmt_0d w n) = Some (nat n)"
proof -
  from assms have "nat n < 10 ^ w"
    by (metis nat_less_iff of_nat_numeral of_nat_power)
  from length_show_nat[OF assms(1) this] have l: "length (show_nat (nat n)) \<le> w" .
  have z: "is_digit CHR ''0''" by (simp add: is_digit_def)
  from show_nat_props[of "nat n"] l assms(2) z show ?thesis
    by (auto simp add: fmt_0d_def zpad_def read_nat_def digits_value_zeros list_all_iff)
qed


lemma digit_char_nonzero: "0 < d \<Longrightarrow> d < 10 \<Longrightarrow> digit_char d \<noteq> CHR ''0''"
proof
  assume d: "0 < d" "d < 10" and e: "digit_char d = CHR ''0''"
  from e have "(of_char (digit_char d) :: nat) = of_char CHR ''0''" by simp
  with d show False by (simp add: of_char_digit_char)
qed

lemma hd_show_nat_nonzero: "0 < n \<Longrightarrow> hd (show_nat n) \<noteq> CHR ''0''"
proof (induction n rule: show_nat.induct)
  case (1 n)
  show ?case
  proof (cases "n < 10")
    case True
    with "1.prems" show ?thesis by (simp add: show_nat.simps[of n] digit_char_nonzero)
  next
    case False
    then have p: "0 < n div 10" by simp
    from show_nat_props[of "n div 10"] have ne: "show_nat (n div 10) \<noteq> []" by simp
    from "1.IH"[OF False p] False ne show ?thesis
      by (simp add: show_nat.simps[of n])
  qed
qed

lemma fmt_d_canonical:
  "(n < 0 \<longrightarrow> fmt_d n = CHR ''-'' # fmt_d (- n))
   \<and> (0 < n \<longrightarrow> hd (fmt_d n) \<noteq> CHR ''0'')
   \<and> fmt_d 0 = ''0''"
proof (intro conjI impI)
  assume "n < 0"
  then show "fmt_d n = CHR ''-'' # fmt_d (- n)" by (simp add: fmt_d_def)
next
  assume "0 < n"
  then show "hd (fmt_d n) \<noteq> CHR ''0''" by (simp add: fmt_d_def hd_show_nat_nonzero)
next
  show "fmt_d 0 = ''0''"
    by (simp add: fmt_d_def show_nat.simps[of 0] digit_char_def char_of_def bit_Suc_0_iff)
qed

text \<open>
  Claim C3 (legacy index). For every non-empty position map, \<open>contiguous_xref_chunks\<close>
  returns a non-empty list of non-empty chunks which, concatenated, are the entries in
  ascending id order; the ids of every chunk are consecutive from its first id, a new
  chunk starts exactly where the id is not one greater than the previous one, and the
  first chunk starts at the lowest id. The run headers are those of the specification's
  grouping. When every position is an offset, \<open>write_xref_table\<close> writes the line
  \<^verbatim>\<open>xref\<close>; then, when the lowest id is 1, the header \<^verbatim>\<open>0\<close> and the run length plus one,
  the free entry \<^verbatim>\<open>0000000000 65535 f\<close> and the entries of the first run, and otherwise
  the subsection \<^verbatim>\<open>0 1\<close> holding the free entry alone, followed by the header and the
  entries of the first run; then header and entries of every further run. A header is
  the first id and the length in decimal (canonical: \<open>read_int\<close> gives the number back,
  no leading zero), an entry line is the offset in 10 digits and the generation in 5. A
  position map whose ids are 1, 2, 3, 7, 8, 10 gives exactly the runs (1,3), (7,2), (10,1).
\<close>

theorem legacy_xref_index:
  assumes "pd \<noteq> []"
  shows "\<exists>first sub rest.
      contiguous_xref_chunks pd = Inr ((first, sub) # rest)
    \<and> concat (map snd ((first, sub) # rest)) = map (entry pd) (sort_key snd (map fst pd))
    \<and> concat (map chunk_ids ((first, sub) # rest)) = sort (map (snd \<circ> fst) pd)
    \<and> (\<forall>c \<in> set ((first, sub) # rest). snd c \<noteq> [])
    \<and> maximal_runs ((first, sub) # rest)
    \<and> map header ((first, sub) # rest) = run_headers (map (snd \<circ> fst) pd)
    \<and> first = hd (sort (map (snd \<circ> fst) pd))
    \<and> ((\<forall>e \<in> set pd. is_offset (snd e)) \<longrightarrow>
         write_xref_table stream pd =
           Inr (length stream,
                stream @ ''xref\<newline>''
                @ (if first = 1
                   then fmt_d 0 @ '' '' @ fmt_d (int (length sub) + 1) @ ''\<newline>''
                        @ ''0000000000 65535 f \<newline>''
                        @ concat (map entry_line sub)
                   else ''0 1\<newline>'' @ ''0000000000 65535 f \<newline>''
                        @ fmt_d first @ '' '' @ fmt_d (int (length sub)) @ ''\<newline>''
                        @ concat (map entry_line sub))
                @ concat (map (\<lambda>c. fmt_d (fst c) @ '' '' @ fmt_d (int (length (snd c)))
                                    @ ''\<newline>'' @ concat (map entry_line (snd c))) rest)))
    \<and> (distinct (map (snd \<circ> fst) pd) \<and> set (map (snd \<circ> fst) pd) = {1, 2, 3, 7, 8, 10} \<longrightarrow>
         map header ((first, sub) # rest) = [(1, 3), (7, 2), (10, 1)])
    \<and> (\<forall>p g. entry_line (Offset p, g)
                 = fmt_0d 10 p @ '' '' @ fmt_0d 5 g @ '' n \<newline>'')
    \<and> (\<forall>n. read_int (fmt_d n) = Some n)
    \<and> (\<forall>n. (n < 0 \<longrightarrow> fmt_d n = CHR ''-'' # fmt_d (- n))
            \<and> (0 < n \<longrightarrow> hd (fmt_d n) \<noteq> CHR ''0''))
    \<and> fmt_d 0 = ''0''
    \<and> (\<forall>w n. 0 < w \<and> 0 \<le> n \<and> n < 10 ^ w \<longrightarrow>
           length (fmt_0d w n) = w \<and> read_nat (fmt_0d w n) = Some (nat n))"
proof -
  from contiguous_xref_chunks_ok[OF assms] obtain cs where
    cs: "contiguous_xref_chunks pd = Inr cs"
      "concat (map snd cs) = map (entry pd) (sort_key snd (map fst pd))"
      "concat (map chunk_ids cs) = sort (map (snd \<circ> fst) pd)"
      "\<forall>c \<in> set cs. snd c \<noteq> []" "maximal_runs cs" "cs \<noteq> []"
      "map header cs = run_headers (map (snd \<circ> fst) pd)"
    by blast
  from cs(6) obtain first sub rest where split: "cs = (first, sub) # rest"
    by (cases cs) auto
  have sub: "sub \<noteq> []" using cs(4) split by simp
  have hd: "first = hd (sort (map (snd \<circ> fst) pd))"
  proof -
    from sub obtain x xs where "sub = x # xs" by (cases sub) auto
    then have "concat (map chunk_ids cs) = first # map (\<lambda>j. first + int j) [1..<length sub]
        @ concat (map chunk_ids rest)"
      by (simp add: split upt_rec)
    with cs(3) show ?thesis by (metis list.sel(1))
  qed
  have out': "(\<forall>e \<in> set pd. is_offset (snd e)) \<longrightarrow>
         write_xref_table stream pd =
           Inr (length stream,
                stream @ ''xref\<newline>''
                @ (if first = 1
                   then fmt_d 0 @ '' '' @ fmt_d (int (length sub) + 1) @ ''\<newline>''
                        @ ''0000000000 65535 f \<newline>''
                        @ concat (map entry_line sub)
                   else ''0 1\<newline>'' @ ''0000000000 65535 f \<newline>''
                        @ fmt_d first @ '' '' @ fmt_d (int (length sub)) @ ''\<newline>''
                        @ concat (map entry_line sub))
                @ concat (map (\<lambda>c. fmt_d (fst c) @ '' '' @ fmt_d (int (length (snd c)))
                                    @ ''\<newline>'' @ concat (map entry_line (snd c))) rest))"
  proof
    assume off: "\<forall>e \<in> set pd. is_offset (snd e)"
    from chunk_entries_offsets[OF off cs(2)]
    have a: "\<forall>e \<in> set sub. is_offset (fst e)"
      and b: "\<forall>c \<in> set rest. \<forall>e \<in> set (snd c). is_offset (fst e)"
      by (simp_all add: split)
    have st: "section_text = (\<lambda>c. fmt_d (fst c) @ '' '' @ fmt_d (int (length (snd c)))
                                    @ ''\<newline>'' @ concat (map entry_line (snd c)))"
      by (rule ext) (simp add: section_text_def write_header_def)
    show "write_xref_table stream pd =
           Inr (length stream,
                stream @ ''xref\<newline>''
                @ (if first = 1
                   then fmt_d 0 @ '' '' @ fmt_d (int (length sub) + 1) @ ''\<newline>''
                        @ ''0000000000 65535 f \<newline>''
                        @ concat (map entry_line sub)
                   else ''0 1\<newline>'' @ ''0000000000 65535 f \<newline>''
                        @ fmt_d first @ '' '' @ fmt_d (int (length sub)) @ ''\<newline>''
                        @ concat (map entry_line sub))
                @ concat (map (\<lambda>c. fmt_d (fst c) @ '' '' @ fmt_d (int (length (snd c)))
                                    @ ''\<newline>'' @ concat (map entry_line (snd c))) rest))"
      using cs(1) split
      by (simp add: write_xref_table_def Let_def write_subsection_offsets[OF a]
          write_sections_offsets[OF b] st write_header_def null_obj_ref_def)
  qed
  have ex: "map header cs = [(1, 3), (7, 2), (10, 1)]"
    if "distinct (map (snd \<circ> fst) pd)" "set (map (snd \<circ> fst) pd) = {1, 2, 3, 7, 8, 10}"
    using run_headers_example[OF that] cs(7) by simp
  have ex': "distinct (map (snd \<circ> fst) pd) \<and> set (map (snd \<circ> fst) pd) = {1, 2, 3, 7, 8, 10} \<longrightarrow>
         map header ((first, sub) # rest) = [(1, 3), (7, 2), (10, 1)]"
    using ex unfolding split by blast
  have el: "\<forall>p g. entry_line (Offset p, g)
                 = fmt_0d 10 p @ '' '' @ fmt_0d 5 g @ '' n \<newline>''"
    by simp
  have ri: "\<forall>n. read_int (fmt_d n) = Some n" by (simp add: read_int_fmt_d)
  have ca: "\<forall>n. (n < 0 \<longrightarrow> fmt_d n = CHR ''-'' # fmt_d (- n))
            \<and> (0 < n \<longrightarrow> hd (fmt_d n) \<noteq> CHR ''0'')"
    using fmt_d_canonical by blast
  have z: "fmt_d 0 = ''0''" using fmt_d_canonical by blast
  have fw: "\<forall>w n. 0 < w \<and> 0 \<le> n \<and> n < 10 ^ w \<longrightarrow>
           length (fmt_0d w n) = w \<and> read_nat (fmt_0d w n) = Some (nat n)"
    using fmt_0d_fixed_width by blast
  note facts = cs(1-5,7)[unfolded split] hd out' ex' el ri ca z fw
  show ?thesis
    by (rule exI[of _ first], rule exI[of _ sub], rule exI[of _ rest], intro conjI)
       (rule facts)+
qed


theorem legacy_xref_index_witness:
  "write_xref_table ''%PDF''
       [((0, 2), Offset 20), ((0, 1), Offset 10), ((0, 3), Offset 30),
        ((0, 10), Offset 5), ((0, 8), Offset 80), ((0, 7), Offset 70)]
     = Inr (4, ''%PDFxref\<newline>0 4\<newline>0000000000 65535 f \<newline>0000000010 00000 n \<newline>0000000020 00000 n \<newline>0000000030 00000 n \<newline>7 2\<newline>0000000070 00000 n \<newline>0000000080 00000 n \<newline>10 1\<newline>0000000005 00000 n \<newline>'')
   \<and> (\<exists>first sub rest.
        contiguous_xref_chunks
          [((0, 2), Offset 20), ((0, 1), Offset 10), ((0, 3), Offset 30),
           ((0, 10), Offset 5), ((0, 8), Offset 80), ((0, 7), Offset 70)]
          = Inr ((first, sub) # rest)
      \<and> map header ((first, sub) # rest) = [(1, 3), (7, 2), (10, 1)])"
proof -
  let ?pd = "[((0, 2), Offset 20), ((0, 1), Offset 10), ((0, 3), Offset 30),
        ((0, 10), Offset 5), ((0, 8), Offset 80), ((0, 7), Offset 70)]
        :: position_dict"
  let ?E = "\<lambda>first sub rest.
                ''%PDF'' @ ''xref\<newline>''
                @ (if first = (1 :: int)
                   then fmt_d 0 @ '' '' @ fmt_d (int (length sub) + 1) @ ''\<newline>''
                        @ ''0000000000 65535 f \<newline>''
                        @ concat (map entry_line sub)
                   else ''0 1\<newline>'' @ ''0000000000 65535 f \<newline>''
                        @ fmt_d first @ '' '' @ fmt_d (int (length sub)) @ ''\<newline>''
                        @ concat (map entry_line sub))
                @ concat (map (\<lambda>c. fmt_d (fst c) @ '' '' @ fmt_d (int (length (snd c)))
                                    @ ''\<newline>'' @ concat (map entry_line (snd c))) rest)"
  have ne: "?pd \<noteq> []" by simp
  have off: "\<forall>e \<in> set ?pd. is_offset (snd e)" by simp
  have ids: "distinct (map (snd \<circ> fst) ?pd) \<and> set (map (snd \<circ> fst) ?pd) = {1, 2, 3, 7, 8, 10}"
    by auto
  have ch: "contiguous_xref_chunks ?pd
      = Inr [(1, [(Offset 10, 0), (Offset 20, 0), (Offset 30, 0)]),
             (7, [(Offset 70, 0), (Offset 80, 0)]), (10, [(Offset 5, 0)])]"
    by code_simp
  from legacy_xref_index[OF ne, of "''%PDF''"] obtain first sub rest where
    c: "contiguous_xref_chunks ?pd = Inr ((first, sub) # rest)"
    and w: "(\<forall>e \<in> set ?pd. is_offset (snd e)) \<longrightarrow>
         write_xref_table ''%PDF'' ?pd = Inr (length ''%PDF'', ?E first sub rest)"
    and h: "distinct (map (snd \<circ> fst) ?pd) \<and> set (map (snd \<circ> fst) ?pd) = {1, 2, 3, 7, 8, 10}
        \<longrightarrow> map header ((first, sub) # rest) = [(1, 3), (7, 2), (10, 1)]"
    by (elim exE conjE) (rule that, assumption+)
  from h ids have hs: "map header ((first, sub) # rest) = [(1, 3), (7, 2), (10, 1)]"
    by (rule mp)
  from c ch have fs: "first = 1" "sub = [(Offset 10, 0), (Offset 20, 0), (Offset 30, 0)]"
    "rest = [(7, [(Offset 70, 0), (Offset 80, 0)]), (10, [(Offset 5, 0)])]"
    by simp_all
  have lit: "?E 1 [(Offset 10, 0), (Offset 20, 0), (Offset 30, 0)]
        [(7, [(Offset 70, 0), (Offset 80, 0)]), (10, [(Offset 5, 0)])]
      = ''%PDFxref\<newline>0 4\<newline>0000000000 65535 f \<newline>0000000010 00000 n \<newline>0000000020 00000 n \<newline>0000000030 00000 n \<newline>7 2\<newline>0000000070 00000 n \<newline>0000000080 00000 n \<newline>10 1\<newline>0000000005 00000 n \<newline>''"
    by code_simp
  have len: "length ''%PDF'' = 4" by simp
  from w[THEN mp, OF off] have wr: "write_xref_table ''%PDF'' ?pd
      = Inr (4, ''%PDFxref\<newline>0 4\<newline>0000000000 65535 f \<newline>0000000010 00000 n \<newline>0000000020 00000 n \<newline>0000000030 00000 n \<newline>7 2\<newline>0000000070 00000 n \<newline>0000000080 00000 n \<newline>10 1\<newline>0000000005 00000 n \<newline>'')"
    unfolding fs lit len .
  have ex: "\<exists>first sub rest. contiguous_xref_chunks ?pd = Inr ((first, sub) # rest)
      \<and> map header ((first, sub) # rest) = [(1, 3), (7, 2), (10, 1)]"
    by (rule exI[of _ first], rule exI[of _ sub], rule exI[of _ rest], intro conjI)
       (rule c hs)+
  show ?thesis by (rule conjI) (rule wr ex)+
qed

subsection \<open>The compact binary index\<close>

text \<open>
  \<^verbatim>\<open>struct.pack('>Q', n)\<close> and \<^verbatim>\<open>struct.pack('>H', n)\<close> give the 8 and 2 bytes of \<open>n\<close>,
  most significant first, and raise \<^verbatim>\<open>struct.error\<close> outside the range of the format.
  An \<open>XRefStream\<close> is its dictionary, its data and the position map it was made with;
  \<open>XRefStream_write_to_stream\<close> is the part of \<^verbatim>\<open>write_to_stream\<close> before the
  stream object is serialised.
\<close>

fun be_bytes :: "nat \<Rightarrow> nat \<Rightarrow> string" where
  "be_bytes 0 n = []"
| "be_bytes (Suc k) n = char_of (n div 256 ^ k) # be_bytes k n"

definition be_decode :: "string \<Rightarrow> nat" where
  "be_decode s = foldl (\<lambda>acc c. acc * 256 + of_char c) 0 s"

definition pack_Q :: "int \<Rightarrow> error + string" where
  "pack_Q n = (if 0 \<le> n \<and> n < 2 ^ 64 then Inr (be_bytes 8 (nat n)) else Inl StructError)"

definition pack_H :: "int \<Rightarrow> error + string" where
  "pack_H n = (if 0 \<le> n \<and> n < 2 ^ 16 then Inr (be_bytes 2 (nat n)) else Inl StructError)"

fun xref_stream_entry :: "position \<times> int \<Rightarrow> error + string" where
  "xref_stream_entry (InObjStm obj_stream_num ix, g) =
     (if g \<noteq> 0 then Inl AssertionError
      else err_bind (pack_Q obj_stream_num) (\<lambda>a.
           err_bind (pack_H ix) (\<lambda>b. Inr (CHR 0x02 # a @ b))))"
| "xref_stream_entry (Offset p, g) =
     err_bind (pack_Q p) (\<lambda>a.
     err_bind (pack_H g) (\<lambda>b. Inr (CHR 0x01 # a @ b)))"

fun xref_stream_subsection :: "string \<Rightarrow> (position \<times> int) list \<Rightarrow> error + string" where
  "xref_stream_subsection content [] = Inr content"
| "xref_stream_subsection content (e # es) =
     err_bind (xref_stream_entry e) (\<lambda>b. xref_stream_subsection (content @ b) es)"

fun xref_stream_sections ::
  "int list \<Rightarrow> string \<Rightarrow> (int \<times> (position \<times> int) list) list
     \<Rightarrow> error + (int list \<times> string)" where
  "xref_stream_sections index content [] = Inr (index, content)"
| "xref_stream_sections index content ((first_idnum, subsection) # rest) =
     err_bind (xref_stream_subsection content subsection) (\<lambda>content'.
       xref_stream_sections (index @ [first_idnum, int (length subsection)]) content' rest)"

record XRefStream =
  xs_dict :: "(string \<times> pdf_obj) list"
  xs_data :: string
  xs_position_dict :: position_dict

definition XRefStream_init :: "position_dict \<Rightarrow> XRefStream" where
  "XRefStream_init pd =
     \<lparr>xs_dict = [(''/W'', ArrayObject (map NumberObject [1, 8, 2])),
                 (''/Type'', NameObject ''/XRef'')],
      xs_data = [],
      xs_position_dict = pd\<rparr>"

definition XRefStream_write_to_stream :: "XRefStream \<Rightarrow> error + XRefStream" where
  "XRefStream_write_to_stream xs =
     err_bind (contiguous_xref_chunks (xs_position_dict xs)) (\<lambda>subsections.
     err_bind (xref_stream_sections [0, 1]
                 (replicate 9 (CHR 0x00) @ [CHR 0xFF, CHR 0xFF])
                 subsections) (\<lambda>(index, stream_content).
       Inr (xs\<lparr>xs_dict := AList.update ''/Index'' (ArrayObject (map NumberObject index))
                              (xs_dict xs),
               xs_data := stream_content\<rparr>)))"

fun entry_in_range :: "position \<times> int \<Rightarrow> bool" where
  "entry_in_range (Offset p, g) = (0 \<le> p \<and> p < 2 ^ 64 \<and> 0 \<le> g \<and> g < 2 ^ 16)"
| "entry_in_range (InObjStm n ix, g) = (g = 0 \<and> 0 \<le> n \<and> n < 2 ^ 64 \<and> 0 \<le> ix \<and> ix < 2 ^ 16)"

fun entry_bytes :: "position \<times> int \<Rightarrow> string" where
  "entry_bytes (Offset p, g) = CHR 0x01 # be_bytes 8 (nat p) @ be_bytes 2 (nat g)"
| "entry_bytes (InObjStm n ix, g) = CHR 0x02 # be_bytes 8 (nat n) @ be_bytes 2 (nat ix)"

definition free_entry_bytes :: string where
  "free_entry_bytes = CHR 0x00 # be_bytes 8 0 @ be_bytes 2 65535"

definition index_pairs :: "(int \<times> nat) list \<Rightarrow> int list" where
  "index_pairs hs = concat (map (\<lambda>h. [fst h, int (snd h)]) hs)"

lemma be_bytes_numeral:
  "be_bytes (numeral k) n = char_of (n div 256 ^ pred_numeral k) # be_bytes (pred_numeral k) n"
proof -
  have h: "numeral k = Suc (pred_numeral k)" by (rule numeral_eq_Suc)
  show ?thesis by (simp only: h be_bytes.simps)
qed

lemmas byte_simps = be_bytes_numeral char_of_def bit_Suc_0_iff

lemma replicate_9: "replicate 9 x = [x, x, x, x, x, x, x, x, x]"
  by (simp add: numeral_eq_Suc)

lemma null_entry_bytes: "replicate 9 (CHR 0x00) @ [CHR 0xFF, CHR 0xFF] = free_entry_bytes"
  by (simp add: free_entry_bytes_def replicate_9 byte_simps)

lemma length_be_bytes: "length (be_bytes k n) = k"
  by (induction k) simp_all

lemma be_decode_append: "be_decode (s @ [c]) = be_decode s * 256 + of_char c"
  by (simp add: be_decode_def)

lemma be_bytes_Suc_last: "be_bytes (Suc k) n = be_bytes k (n div 256) @ [char_of n]"
  by (induction k arbitrary: n) (simp_all add: div_mult2_eq)

lemma be_decode_be_bytes: "be_decode (be_bytes k n) = n mod 256 ^ k"
proof (induction k arbitrary: n)
  case 0
  then show ?case by (simp add: be_decode_def)
next
  case (Suc k)
  have "be_decode (be_bytes (Suc k) n) = (n div 256) mod 256 ^ k * 256 + n mod 256"
    unfolding be_bytes_Suc_last be_decode_append Suc.IH by simp
  also have "\<dots> = n mod 256 ^ Suc k"
    by (simp add: mod_mult2_eq)
  finally show ?case .
qed

lemma xref_stream_entry_in_range:
  "entry_in_range e \<Longrightarrow> xref_stream_entry e = Inr (entry_bytes e)"
proof -
  assume r: "entry_in_range e"
  obtain p g where e: "e = (p, g)" by (cases e)
  show ?thesis using r unfolding e by (cases p) (simp_all add: pack_Q_def pack_H_def)
qed

lemma xref_stream_entry_Inr:
  "xref_stream_entry e = Inr b \<Longrightarrow> entry_in_range e"
proof -
  assume r: "xref_stream_entry e = Inr b"
  obtain p g where e: "e = (p, g)" by (cases e)
  show ?thesis using r unfolding e
    by (cases p) (simp_all add: pack_Q_def pack_H_def split: if_splits)
qed

lemma xref_stream_subsection_ok:
  "\<forall>e \<in> set c. entry_in_range e \<Longrightarrow>
     xref_stream_subsection content c = Inr (content @ concat (map entry_bytes c))"
  by (induction c arbitrary: content) (simp_all add: xref_stream_entry_in_range)

lemma xref_stream_subsection_Inr:
  "xref_stream_subsection content c = Inr r \<Longrightarrow> \<forall>e \<in> set c. entry_in_range e"
proof (induction c arbitrary: content)
  case Nil
  then show ?case by simp
next
  case (Cons e es)
  from Cons.prems obtain b where b: "xref_stream_entry e = Inr b"
    by (cases "xref_stream_entry e") simp_all
  with Cons.prems have "xref_stream_subsection (content @ b) es = Inr r" by simp
  from Cons.IH[OF this] xref_stream_entry_Inr[OF b] show ?case by simp
qed

lemma xref_stream_sections_ok:
  "\<forall>e \<in> set (concat (map snd cs)). entry_in_range e \<Longrightarrow>
     xref_stream_sections index content cs
       = Inr (index @ index_pairs (map header cs),
              content @ concat (map entry_bytes (concat (map snd cs))))"
proof (induction cs arbitrary: index content)
  case Nil
  then show ?case by (simp add: index_pairs_def)
next
  case (Cons c cs)
  obtain f sub where c: "c = (f, sub)" by (cases c)
  from Cons.prems have a: "\<forall>e \<in> set sub. entry_in_range e"
    and b: "\<forall>e \<in> set (concat (map snd cs)). entry_in_range e"
    by (simp_all add: c)
  show ?case
    using Cons.IH[OF b] xref_stream_subsection_ok[OF a]
    by (simp add: c index_pairs_def header_def)
qed

lemma xref_stream_sections_Inr:
  "xref_stream_sections index content cs = Inr r \<Longrightarrow>
     \<forall>e \<in> set (concat (map snd cs)). entry_in_range e"
proof (induction cs arbitrary: index content)
  case Nil
  then show ?case by simp
next
  case (Cons c cs)
  obtain f sub where c: "c = (f, sub)" by (cases c)
  from Cons.prems obtain content' where s: "xref_stream_subsection content sub = Inr content'"
    by (cases "xref_stream_subsection content sub") (simp_all add: c)
  with Cons.prems have
    "xref_stream_sections (index @ [f, int (length sub)]) content' cs = Inr r"
    by (simp add: c)
  from Cons.IH[OF this] xref_stream_subsection_Inr[OF s] show ?case by (auto simp add: c)
qed

text \<open>
  Claim C4 (compact index). When the position map is not empty and every entry fits its
  field, the data of the index stream is the free entry for id 0 (tag 0, offset 0,
  generation 65535) followed, for the entries in ascending id order, by one tag byte and
  ten more bytes each: tag 1, the offset in 8 bytes and the generation in 2 for a direct
  object; tag 2, the number of the object stream in 8 bytes and the index in it in 2 for
  an object in a container, all big-endian. The dictionary holds \<^verbatim>\<open>/W\<close> = [1, 8, 2] and
  gets \<^verbatim>\<open>/Index\<close> = 0, 1 followed by the first id and the length of every run. On any
  other position map the method raises and writes no stream.
\<close>

theorem compact_xref_stream:
  "(xs_position_dict xs \<noteq> []
      \<and> (\<forall>k \<in> set (map fst (xs_position_dict xs)).
            entry_in_range (entry (xs_position_dict xs) k)) \<longrightarrow>
      XRefStream_write_to_stream xs =
        Inr (xs
          \<lparr>xs_dict := AList.update ''/Index''
               (ArrayObject (map NumberObject
                  ([0, 1] @ index_pairs (run_headers (map (snd \<circ> fst) (xs_position_dict xs))))))
               (xs_dict xs),
            xs_data := free_entry_bytes
              @ concat (map entry_bytes (map (entry (xs_position_dict xs))
                  (sort_key snd (map fst (xs_position_dict xs)))))\<rparr>))
   \<and> ((\<exists>xs'. XRefStream_write_to_stream xs = Inr xs') \<longrightarrow>
        xs_position_dict xs \<noteq> []
        \<and> (\<forall>k \<in> set (map fst (xs_position_dict xs)).
              entry_in_range (entry (xs_position_dict xs) k)))
   \<and> map_of (xs_dict (XRefStream_init pd)) ''/W''
        = Some (ArrayObject [NumberObject 1, NumberObject 8, NumberObject 2])
   \<and> map_of (AList.update ''/Index'' v (xs_dict xs)) ''/W'' = map_of (xs_dict xs) ''/W''
   \<and> free_entry_bytes = replicate 9 (CHR 0x00) @ [CHR 0xFF, CHR 0xFF]
   \<and> (\<forall>e. length (entry_bytes e) = 11)
   \<and> (\<forall>k n. n < 256 ^ k \<longrightarrow> be_decode (be_bytes k n) = n)"
proof (intro conjI impI allI)
  let ?pd = "xs_position_dict xs"
  assume a: "?pd \<noteq> [] \<and> (\<forall>k \<in> set (map fst ?pd). entry_in_range (entry ?pd k))"
  from contiguous_xref_chunks_ok[of ?pd] a obtain cs where
    cs: "contiguous_xref_chunks ?pd = Inr cs"
      "concat (map snd cs) = map (entry ?pd) (sort_key snd (map fst ?pd))"
      "map header cs = run_headers (map (snd \<circ> fst) ?pd)"
    by blast
  have r: "\<forall>e \<in> set (concat (map snd cs)). entry_in_range e"
    unfolding cs(2) using a by simp
  show "XRefStream_write_to_stream xs =
        Inr (xs
          \<lparr>xs_dict := AList.update ''/Index''
               (ArrayObject (map NumberObject
                  ([0, 1] @ index_pairs (run_headers (map (snd \<circ> fst) ?pd)))))
               (xs_dict xs),
            xs_data := free_entry_bytes
              @ concat (map entry_bytes (map (entry ?pd) (sort_key snd (map fst ?pd))))\<rparr>)"
    using cs(1) xref_stream_sections_ok[OF r] cs(2,3)
    by (simp add: XRefStream_write_to_stream_def null_entry_bytes)
next
  let ?pd = "xs_position_dict xs"
  assume "\<exists>xs'. XRefStream_write_to_stream xs = Inr xs'"
  then obtain xs' where w: "XRefStream_write_to_stream xs = Inr xs'" ..
  show ne: "?pd \<noteq> []"
  proof
    assume "?pd = []"
    with w show False
      by (simp add: XRefStream_write_to_stream_def contiguous_xref_chunks_def)
  qed
  from contiguous_xref_chunks_ok[OF ne] obtain cs where
    cs: "contiguous_xref_chunks ?pd = Inr cs"
      "concat (map snd cs) = map (entry ?pd) (sort_key snd (map fst ?pd))"
    by blast
  from w cs(1) obtain r where "xref_stream_sections [0, 1]
      (replicate 9 (CHR 0x00) @ [CHR 0xFF, CHR 0xFF]) cs = Inr r"
    by (cases "xref_stream_sections [0, 1] (replicate 9 (CHR 0x00) @ [CHR 0xFF, CHR 0xFF]) cs")
       (simp_all add: XRefStream_write_to_stream_def)
  from xref_stream_sections_Inr[OF this] cs(2)
  show "\<forall>k \<in> set (map fst ?pd). entry_in_range (entry ?pd k)" by simp
next
  show "map_of (xs_dict (XRefStream_init pd)) ''/W''
        = Some (ArrayObject [NumberObject 1, NumberObject 8, NumberObject 2])"
    by (simp add: XRefStream_init_def)
  show "map_of (AList.update ''/Index'' v (xs_dict xs)) ''/W'' = map_of (xs_dict xs) ''/W''"
    by (simp add: update_conv')
  show "free_entry_bytes = replicate 9 (CHR 0x00) @ [CHR 0xFF, CHR 0xFF]"
    by (simp add: null_entry_bytes)
next
  fix e :: "position \<times> int"
  obtain p g where e: "e = (p, g)" by (cases e)
  show "length (entry_bytes e) = 11" unfolding e by (cases p) (simp_all add: length_be_bytes)
next
  fix k n :: nat
  assume "n < 256 ^ k"
  then show "be_decode (be_bytes k n) = n" by (simp add: be_decode_be_bytes)
qed

theorem compact_xref_stream_witness:
  "\<exists>xs'. XRefStream_write_to_stream
     (XRefStream_init [((0, 2), Offset 20), ((0, 1), InObjStm 2 0), ((0, 5), Offset 300)])
       = Inr xs'
   \<and> xs_data xs' = free_entry_bytes
        @ concat (map entry_bytes [(InObjStm 2 0, 0), (Offset 20, 0), (Offset 300, 0)])
   \<and> map_of (xs_dict xs') ''/Index''
        = Some (ArrayObject (map NumberObject [0, 1, 1, 2, 5, 1]))"
proof -
  let ?pd = "[((0, 2), Offset 20), ((0, 1), InObjStm 2 0), ((0, 5), Offset 300)]
      :: position_dict"
  have p: "xs_position_dict (XRefStream_init ?pd) = ?pd" by (simp add: XRefStream_init_def)
  have h: "xs_position_dict (XRefStream_init ?pd) \<noteq> []
      \<and> (\<forall>k \<in> set (map fst (xs_position_dict (XRefStream_init ?pd))).
            entry_in_range (entry (xs_position_dict (XRefStream_init ?pd)) k))"
    unfolding p by (simp add: entry_def)
  note w = compact_xref_stream[of "XRefStream_init ?pd", THEN conjunct1, THEN mp, OF h]
  show ?thesis
    unfolding w p
    by (simp add: entry_def run_headers_def index_pairs_def update_conv')
qed

section \<open>Objects changed in place\<close>

text \<open>
  The source changes dictionaries and arrays in place. The model keeps values, not
  pointers: an object reached through a reference is the value stored under that
  reference, a change to it is written back by \<open>set_object\<close> to where \<open>get_object\<close>
  found it (an object in an object stream is the same Python object in
  \<^verbatim>\<open>objs_in_streams\<close> and in the stream), and a change to the fresh null object that
  stands for a pending placeholder is lost. Two references never name one Python object.
  References are resolved through the writer, which owns the pages it changes.
\<close>

fun dict_items :: "pdf_obj \<Rightarrow> (string \<times> pdf_obj) list option" where
  "dict_items (DictionaryObject d) = Some d"
| "dict_items (StreamObject d s) = Some d"
| "dict_items obj = None"

fun with_items :: "pdf_obj \<Rightarrow> (string \<times> pdf_obj) list \<Rightarrow> pdf_obj" where
  "with_items (StreamObject d s) d' = StreamObject d' s"
| "with_items obj d' = DictionaryObject d'"

definition set_object :: "writer \<Rightarrow> reference \<Rightarrow> pdf_obj \<Rightarrow> writer" where
  "set_object w r v =
     (if map_of (objects w) (generation r, idnum r) \<noteq> None
      then w\<lparr>objects := AList.update (generation r, idnum r) v (objects w)\<rparr>
      else if generation r = 0 \<and> idnum r \<notin> allocated_placeholders w
              \<and> map_of (objs_in_streams w) (idnum r) \<noteq> None
      then w\<lparr>objs_in_streams := AList.update (idnum r) v (objs_in_streams w),
             object_streams :=
               map (\<lambda>(h, os). (h, os\<lparr>obj_refs := AList.map_entry (idnum r) (\<lambda>_. v) (obj_refs os)\<rparr>))
                   (object_streams w)\<rparr>
      else w)"

text \<open>
  \<^verbatim>\<open>register_annotation\<close>. \<^verbatim>\<open>mark_update\<close> does nothing in the base writer and is
  overridden by the incremental writer; the model returns the references it was called
  with, in order. A \<^verbatim>\<open>KeyError\<close> from resolving the list's reference is caught by the
  same \<^verbatim>\<open>except\<close> as a missing \<^verbatim>\<open>/Annots\<close>. The model covers a page and a list
  that the writer owns: \<^verbatim>\<open>ref.get_object()\<close> is the writer's \<open>get_object\<close> on the
  reference, taken once (a reference of another handler is refused as the writer's
  \<open>get_object\<close> refuses it, and a stored bare reference is not followed further). A page
  object that is an array has \<^verbatim>\<open>raw_get\<close> and fails on the string key with
  \<^verbatim>\<open>TypeError\<close>; any other non-dictionary has no \<^verbatim>\<open>raw_get\<close>.
\<close>

definition register_annotation ::
  "writer \<Rightarrow> reference \<Rightarrow> reference \<Rightarrow> error + (reference list \<times> writer)" where
  "register_annotation w page_ref annot_ref =
     err_bind (get_object w page_ref) (\<lambda>page_obj.
       case dict_items page_obj of
         None \<Rightarrow> (case page_obj of ArrayObject xs \<Rightarrow> Inl TypeError
                                   | other \<Rightarrow> Inl AttributeError)
       | Some items \<Rightarrow>
           let created =
                 Inr ([page_ref],
                      set_object w page_ref
                        (with_items page_obj
                           (AList.update ''/Annots'' (ArrayObject [IndirectObject annot_ref]) items)))
           in (case map_of items ''/Annots'' of
                 None \<Rightarrow> created
               | Some (IndirectObject annots_ref) \<Rightarrow>
                   (case get_object w annots_ref of
                      Inl e \<Rightarrow> if e = KeyError then created else Inl e
                    | Inr (ArrayObject xs) \<Rightarrow>
                        Inr ([annot_ref],
                             set_object w annots_ref (ArrayObject (xs @ [IndirectObject annot_ref])))
                    | Inr other \<Rightarrow> Inl AttributeError)
               | Some (ArrayObject xs) \<Rightarrow>
                   Inr ([page_ref],
                        set_object w page_ref
                          (with_items page_obj
                             (AList.update ''/Annots''
                                (ArrayObject (xs @ [IndirectObject annot_ref])) items)))
               | Some other \<Rightarrow> Inl AttributeError))"

text \<open>A writer with a page (id 2) whose annotation list is the indirect object 3.\<close>

definition annot_writer :: writer where
  "annot_writer =
     \<lparr>self_id = 7,
      objects = [((0, 1), DictionaryObject [(''/Type'', NameObject ''/Catalog'')]),
                 ((0, 2), DictionaryObject [(''/Type'', NameObject ''/Page''),
                                            (''/Annots'', IndirectObject (Reference 3 0 7))]),
                 ((0, 3), ArrayObject []),
                 ((0, 4), DictionaryObject [(''/Type'', NameObject ''/Annot'')])],
      object_streams = [], objs_in_streams = [], lastobj_id = 4,
      allocated_placeholders = {}, stream_xrefs = True, root_ref = Reference 1 0 7,
      info_ref = None, encrypt_ref = None, document_id = ArrayObject []\<rparr>"

text \<open>
  Claim C9 (annotation registration). For a page whose annotation list is an indirect
  object, the list gets the annotation reference appended and the page is not marked, but
  the reference passed to \<^verbatim>\<open>mark_update\<close> is the annotation's (\<^verbatim>\<open>annot_ref\<close>), not
  the list's (\<^verbatim>\<open>annots_ref\<close>): on the writer above, registering annotation 4 on page 2
  marks reference 4 and leaves the changed list, object 3, unmarked.
\<close>

theorem register_annotation_marks_annotation:
  "\<exists>w'. register_annotation annot_writer (Reference 2 0 7) (Reference 4 0 7)
         = Inr ([Reference 4 0 7], w')
       \<and> get_object w' (Reference 3 0 7) = Inr (ArrayObject [IndirectObject (Reference 4 0 7)])
       \<and> Reference 3 0 7 \<notin> set [Reference 4 0 7]"
  by (simp add: register_annotation_def annot_writer_def get_object_def set_object_def Let_def)

section \<open>The write pipeline\<close>
































end
